theory Spec2Isabelle
  imports Main "HOL-Library.Sublist" "HOL-Library.AList"
begin

section \<open>Superbus: a message bus with channel specificity\<close>

text \<open>
  The development embeds the class \<open>Superbus\<close> of \<open>superbus.ts\<close>: the registry
  \<open>_subs\<close> of callback sets, the channel expander, the two ways of sending
  (\<open>sendAndWait\<close>, \<open>sendLater\<close>) and the removal of subscriptions.

  Strings are lists of characters, the way the string methods of the source see them
  (a sequence of code units compared one by one).
\<close>

subsection \<open>String methods used by the expander\<close>

text \<open>
  \<open>s.indexOf(pat)\<close>: the smallest position at which \<open>pat\<close> occurs in \<open>s\<close>, or \<open>-1\<close>.
  The second argument of \<open>indexOf_from\<close> is the position of the scan in the whole string.
\<close>

fun indexOf_from :: "string \<Rightarrow> nat \<Rightarrow> string \<Rightarrow> int" where
  "indexOf_from [] k pat = (if pat = [] then int k else - 1)"
| "indexOf_from (c # s) k pat =
     (if prefix pat (c # s) then int k else indexOf_from s (Suc k) pat)"

definition indexOf :: "string \<Rightarrow> string \<Rightarrow> int" where
  "indexOf s pat = indexOf_from s 0 pat"

text \<open>
  \<open>s.split(sep)\<close> for a separator that is not the empty string: the pieces between the
  successive occurrences of \<open>sep\<close>, found from left to right.
\<close>

function split_pieces :: "string \<Rightarrow> string \<Rightarrow> string list" where
  "split_pieces s sep =
     (if sep = [] \<or> indexOf s sep = - 1 then [s]
      else take (nat (indexOf s sep)) s
             # split_pieces (drop (nat (indexOf s sep) + length sep) s) sep)"
  by pat_completeness auto

lemma indexOf_from_found_nonempty:
  "indexOf_from s k pat \<noteq> - 1 \<Longrightarrow> pat \<noteq> [] \<Longrightarrow> s \<noteq> []"
  by (cases s) auto

termination split_pieces
proof (relation "measure (\<lambda>(s, sep). length s)")
  show "wf (measure (\<lambda>(s, sep). length s))" by simp
next
  fix s sep :: string
  assume "\<not> (sep = [] \<or> indexOf s sep = - 1)"
  then have "s \<noteq> []" and "sep \<noteq> []"
    using indexOf_from_found_nonempty [of s 0 sep] by (auto simp: indexOf_def)
  then show "((drop (nat (indexOf s sep) + length sep) s, sep), (s, sep))
               \<in> measure (\<lambda>(s, sep). length s)"
    by (cases s; cases sep) auto
qed

text \<open>
  \<open>s.split(sep, lim)\<close>: at most \<open>lim\<close> pieces. With the empty string as separator the
  pieces are the single characters of \<open>s\<close>.
\<close>

definition split_js :: "string \<Rightarrow> string \<Rightarrow> nat \<Rightarrow> string list" where
  "split_js s sep lim =
     take lim (if sep = [] then map (\<lambda>c. [c]) s else split_pieces s sep)"

subsection \<open>The channel expander\<close>

text \<open>
  \<open>_expandChannelsToListeners\<close>: \<open>changed:123\<close> is heard by the listeners of
  \<open>changed:123\<close>, of \<open>changed\<close> and of \<open>*\<close>.
  The pattern \<open>let [baseChannel] = ...\<close> binds the first piece. It binds \<open>undefined\<close>
  when there is no piece, which as a key of \<open>_subs\<close> reads \<open>undefined\<close>; that happens
  for the empty separator only, which the constructor rules out.
\<close>

definition expandChannelsToListeners :: "string \<Rightarrow> string \<Rightarrow> string list" where
  "expandChannelsToListeners sep channel =
     (let channels = [channel];
          channels = (if indexOf channel sep \<noteq> - 1
                      then (case split_js channel sep 1 of
                              baseChannel # _ \<Rightarrow> channels @ [baseChannel]
                            | [] \<Rightarrow> channels @ [''undefined''])
                      else channels)
      in channels @ [''*''])"

text \<open>
  The constructor's treatment of the separator, \<open>constructor(sep: string = ':')\<close> with
  \<open>this._sep = sep || ':'\<close>: an argument left out, or the empty string, gives \<open>:\<close>.
\<close>

definition constructor_sep :: "string option \<Rightarrow> string" where
  "constructor_sep arg =
     (let sep = (case arg of None \<Rightarrow> '':'' | Some s \<Rightarrow> s)
      in if sep = [] then '':'' else sep)"

text \<open>
  Occurrences of the separator in a channel, for stating what the expander returns:
  \<open>occurs_at sp c i\<close> when \<open>sp\<close> is found in \<open>c\<close> at position \<open>i\<close>, \<open>contains_sep\<close> when
  it is found somewhere, \<open>first_at sp c i\<close> when \<open>i\<close> is the first such position.
\<close>

definition occurs_at :: "string \<Rightarrow> string \<Rightarrow> nat \<Rightarrow> bool" where
  "occurs_at pat s i \<longleftrightarrow> i \<le> length s \<and> take (length pat) (drop i s) = pat"

definition contains_sep :: "string \<Rightarrow> string \<Rightarrow> bool" where
  "contains_sep sp c = list_ex (occurs_at sp c) [0..<Suc (length c)]"

definition first_at :: "string \<Rightarrow> string \<Rightarrow> nat \<Rightarrow> bool" where
  "first_at sp c i \<longleftrightarrow> occurs_at sp c i \<and> list_all (\<lambda>j. \<not> occurs_at sp c j) [0..<i]"

subsection \<open>Callbacks, promises and what is observed\<close>

text \<open>
  A callback is a function reference; the sets of \<open>_subs\<close> hold references and compare
  them by identity, so a callback is modelled by an identifier. What a call of the callback
  does is given by a behaviour: it returns a plain value, it raises, or it returns a promise
  that is later fulfilled, later rejected, or never settled. The behaviour may depend on
  everything observed so far. A promise is what \<open>instanceof Promise\<close> recognises; any other
  value returned counts as returning at once. Callbacks that themselves use the bus during a
  dispatch are outside the model, and a dispatch is followed from its call to its settlement
  with no other use of the bus in between.
\<close>

type_synonym cb = nat

datatype settle = Fulfils | Rejects | Never

datatype outcome = Returns | Throws | Promise settle

text \<open>
  An observation: \<open>Invoked k cb channel data out\<close> is the call \<open>cb(channel, data)\<close> made
  for the \<open>k\<close>-th listener of the expansion (counted from 0), with what the call did;
  \<open>Awaited k cbs\<close> is the point where \<open>await Promise.all(proms)\<close> of the \<open>k\<close>-th
  listener resumes, \<open>cbs\<close> being the callbacks whose promises were collected;
  \<open>NotIterable k\<close> is the \<open>TypeError\<close> that \<open>for (let cb of cbs)\<close> raises for the
  \<open>k\<close>-th listener when \<open>cbs\<close> is not a \<open>Set\<close>.
\<close>

datatype 'd event =
    Invoked nat cb string 'd outcome
  | Awaited nat "cb list"
  | NotIterable nat

type_synonym 'd behaviour = "'d event list \<Rightarrow> cb \<Rightarrow> string \<Rightarrow> 'd \<Rightarrow> outcome"

text \<open>How an awaited \<open>sendAndWait\<close> ends.\<close>

datatype result = Resolved | Rejected | Pending

text \<open>The exception that a method of the bus can raise.\<close>

datatype error = TypeError

subsection \<open>The state of a bus\<close>

text \<open>
  \<open>Set\<close> objects are shared: the registry and the closures handed to
  \<open>process.nextTick\<close> hold references to the same object. So the sets live in a store,
  from addresses to the members in insertion order (the order in which a \<open>Set\<close> is
  enumerated), and \<open>_subs\<close> maps a channel to an address. \<open>_subs\<close> is kept as the list of
  its own keys with their sets; the order of the keys plays no role. The queue of
  \<open>process.nextTick\<close> and the observations are part of the state.

  \<open>_subs\<close> is created by \<open>{}\<close>, a plain object. Reading \<open>this._subs[key]\<close> for a key
  that is not its own gives what \<open>Object.prototype\<close> holds under that name: a function
  for \<open>constructor\<close>, \<open>toString\<close> and the like, the prototype object itself for
  \<open>__proto__\<close>, and \<open>undefined\<close> for every other name. Such an inherited value is not
  \<open>undefined\<close>, has no \<open>size\<close>, \<open>add\<close> or \<open>delete\<close>, and cannot be enumerated.
\<close>

definition object_prototype_names :: "string list" where
  "object_prototype_names =
     [''constructor'', ''__defineGetter__'', ''__defineSetter__'', ''hasOwnProperty'',
      ''__lookupGetter__'', ''__lookupSetter__'', ''isPrototypeOf'',
      ''propertyIsEnumerable'', ''toString'', ''valueOf'', ''__proto__'',
      ''toLocaleString'']"

definition inherited :: "string \<Rightarrow> bool" where
  "inherited key \<longleftrightarrow> key \<in> set object_prototype_names"

type_synonym addr = nat

text \<open>
  What \<open>this._subs[key]\<close> evaluates to: \<open>undefined\<close>, a reference to a \<open>Set\<close>, or an
  inherited value that is not a \<open>Set\<close>.
\<close>

datatype slot = Undefined | SetRef addr | Foreign

text \<open>
  The closure \<open>() => { for (let cb of cbs) { cb(channel, data); } }\<close> with what it
  captures: the value of \<open>cbs\<close> (a set is captured by reference), the channel and the
  data. The position of the listener is kept with it for the observations.
\<close>

record 'd tick =
  t_cbs :: slot
  t_channel :: string
  t_data :: 'd
  t_level :: nat

record 'd superbus =
  subs :: "(string \<times> addr) list"
  sep :: string
  sets :: "addr \<Rightarrow> cb list"
  fresh :: addr
  ticks :: "'d tick list"
  trace :: "'d event list"

definition Superbus :: "string option \<Rightarrow> 'd superbus" where
  "Superbus s = \<lparr>subs = [], sep = constructor_sep s, sets = (\<lambda>a. []), fresh = 0,
                 ticks = [], trace = []\<rparr>"

text \<open>\<open>this._subs[key]\<close>: an own key first, then the prototype.\<close>

definition lookup :: "'d superbus \<Rightarrow> string \<Rightarrow> slot" where
  "lookup w key =
     (case map_of (subs w) key of
        Some a \<Rightarrow> SetRef a
      | None \<Rightarrow> if inherited key then Foreign else Undefined)"

text \<open>\<open>Set.add\<close>, \<open>Set.delete\<close>, \<open>Set.size\<close> on the members of a set.\<close>

definition set_add :: "cb \<Rightarrow> cb list \<Rightarrow> cb list" where
  "set_add c xs = (if c \<in> set xs then xs else xs @ [c])"

definition set_delete :: "cb \<Rightarrow> cb list \<Rightarrow> cb list" where
  "set_delete c xs = removeAll c xs"

definition set_size :: "cb list \<Rightarrow> nat" where
  "set_size xs = length xs"

subsection \<open>Subscribing and unsubscribing\<close>

datatype channel_input = One string | Many "string list"

definition channels_of :: "channel_input \<Rightarrow> string list" where
  "channels_of i = (case i of One c \<Rightarrow> [c] | Many cs \<Rightarrow> cs)"

text \<open>
  The body of the loop of \<open>on\<close>:
  \<open>let set = (this._subs[channel] ??= new Set()); set.add(callback)\<close>.
  The assignment \<open>??=\<close> creates a set only where the key reads \<open>undefined\<close>. For an
  inherited name it keeps the inherited value, and \<open>set.add(callback)\<close> raises a
  \<open>TypeError\<close>.
\<close>

definition subscribe_one :: "string \<Rightarrow> cb \<Rightarrow> 'd superbus \<Rightarrow> error + 'd superbus" where
  "subscribe_one channel callback w =
     (case lookup w channel of
        Undefined \<Rightarrow> Inr (w\<lparr>subs := subs w @ [(channel, fresh w)],
                            sets := (sets w)(fresh w := set_add callback []),
                            fresh := Suc (fresh w)\<rparr>)
      | SetRef a \<Rightarrow> Inr (w\<lparr>sets := (sets w)(a := set_add callback (sets w a))\<rparr>)
      | Foreign \<Rightarrow> Inl TypeError)"

text \<open>
  The loop of \<open>on\<close>. An exception ends it; the channels subscribed before stay subscribed.
\<close>

fun subscribe_each :: "string list \<Rightarrow> cb \<Rightarrow> 'd superbus \<Rightarrow> error option \<times> 'd superbus" where
  "subscribe_each [] callback w = (None, w)"
| "subscribe_each (channel # channels) callback w =
     (case subscribe_one channel callback w of
        Inl e \<Rightarrow> (Some e, w)
      | Inr w' \<Rightarrow> subscribe_each channels callback w')"

text \<open>The unsubscribe function that \<open>on\<close> returns captures \<open>channels\<close> and \<open>callback\<close>.\<close>

record handle =
  h_channels :: "string list"
  h_callback :: cb

text \<open>
  \<open>on\<close> returns the unsubscribe function, or raises and returns nothing; either way the
  bus is left in the state given second.
\<close>

definition on :: "channel_input \<Rightarrow> cb \<Rightarrow> 'd superbus \<Rightarrow> (error + handle) \<times> 'd superbus" where
  "on channelInput callback w =
     (let channels = channels_of channelInput
      in (case subscribe_each channels callback w of
            (Some e, w') \<Rightarrow> (Inl e, w')
          | (None, w') \<Rightarrow> (Inr \<lparr>h_channels = channels, h_callback = callback\<rparr>, w')))"

text \<open>
  The body and the loop of the unsubscribe function; a channel whose set became empty is
  pruned. For a key that reads an inherited value the test \<open>set !== undefined\<close> passes and
  \<open>set.delete(callback)\<close> raises a \<open>TypeError\<close>.
\<close>

definition unsubscribe_one :: "string \<Rightarrow> cb \<Rightarrow> 'd superbus \<Rightarrow> error + 'd superbus" where
  "unsubscribe_one channel callback w =
     (case lookup w channel of
        Undefined \<Rightarrow> Inr w
      | SetRef a \<Rightarrow>
          Inr (let w' = w\<lparr>sets := (sets w)(a := set_delete callback (sets w a))\<rparr>
               in if set_size (sets w' a) = 0
                  then w'\<lparr>subs := AList.delete channel (subs w')\<rparr>
                  else w')
      | Foreign \<Rightarrow> Inl TypeError)"

fun unsubscribe_each :: "string list \<Rightarrow> cb \<Rightarrow> 'd superbus \<Rightarrow> error option \<times> 'd superbus" where
  "unsubscribe_each [] callback w = (None, w)"
| "unsubscribe_each (channel # channels) callback w =
     (case unsubscribe_one channel callback w of
        Inl e \<Rightarrow> (Some e, w)
      | Inr w' \<Rightarrow> unsubscribe_each channels callback w')"

text \<open>
  Calling the unsubscribe function: the exception raised, if any, and the state the bus is
  left in.
\<close>

definition unsub :: "handle \<Rightarrow> 'd superbus \<Rightarrow> error option \<times> 'd superbus" where
  "unsub h w = unsubscribe_each (h_channels h) (h_callback h) w"

text \<open>
  \<open>removeAllSubscriptions\<close>: every set of the registry is cleared, then the registry is
  replaced by an empty one.
\<close>

definition removeAllSubscriptions :: "'d superbus \<Rightarrow> 'd superbus" where
  "removeAllSubscriptions w =
     w\<lparr>sets := foldl (\<lambda>h a. h(a := [])) (sets w) (map snd (subs w)), subs := []\<rparr>"

subsection \<open>Sending\<close>

text \<open>
  The inner loop of \<open>sendAndWait\<close>: every callback of the set is called with the channel
  of the message; the promises returned are collected. A callback that raises ends the
  loop and the whole dispatch (\<open>None\<close>).
\<close>

fun call_each :: "'d behaviour \<Rightarrow> nat \<Rightarrow> string \<Rightarrow> 'd \<Rightarrow> cb list \<Rightarrow> 'd event list
                    \<Rightarrow> (cb \<times> settle) list \<Rightarrow> 'd event list \<times> (cb \<times> settle) list option" where
  "call_each beh k channel data [] tr proms = (tr, Some proms)"
| "call_each beh k channel data (c # cbs) tr proms =
     (case beh tr c channel data of
        Throws \<Rightarrow> (tr @ [Invoked k c channel data Throws], None)
      | Returns \<Rightarrow>
          call_each beh k channel data cbs (tr @ [Invoked k c channel data Returns]) proms
      | Promise s \<Rightarrow>
          call_each beh k channel data cbs (tr @ [Invoked k c channel data (Promise s)])
            (proms @ [(c, s)]))"

text \<open>
  \<open>await Promise.all(proms).finally()\<close>: rejected as soon as one promise is rejected,
  fulfilled once all are, and pending for ever otherwise.
\<close>

definition await_all :: "(cb \<times> settle) list \<Rightarrow> result" where
  "await_all proms =
     (if Rejects \<in> set (map snd proms) then Rejected
      else if Never \<in> set (map snd proms) then Pending
      else Resolved)"

text \<open>
  The outer loop of \<open>sendAndWait\<close> over the listeners, from the \<open>k\<close>-th on. The guard
  \<open>cbs === undefined || cbs.size === 0\<close> passes over a listener that has no set or an
  empty one. An inherited value is neither \<open>undefined\<close> nor of size 0, so the loop
  \<open>for (let cb of cbs)\<close> is entered and raises a \<open>TypeError\<close>: the dispatch is rejected
  there.
\<close>

fun send_each :: "'d behaviour \<Rightarrow> string \<Rightarrow> 'd \<Rightarrow> nat \<Rightarrow> string list \<Rightarrow> 'd superbus
                    \<Rightarrow> result \<times> 'd superbus" where
  "send_each beh channel data k [] w = (Resolved, w)"
| "send_each beh channel data k (listener # listeners) w =
     (case lookup w listener of
        Undefined \<Rightarrow> send_each beh channel data (Suc k) listeners w
      | Foreign \<Rightarrow> (Rejected, w\<lparr>trace := trace w @ [NotIterable k]\<rparr>)
      | SetRef a \<Rightarrow>
          if set_size (sets w a) = 0 then send_each beh channel data (Suc k) listeners w
          else (case call_each beh k channel data (sets w a) (trace w) [] of
                  (tr, None) \<Rightarrow> (Rejected, w\<lparr>trace := tr\<rparr>)
                | (tr, Some proms) \<Rightarrow>
                    (case await_all proms of
                       Resolved \<Rightarrow>
                         send_each beh channel data (Suc k) listeners
                           (w\<lparr>trace := tr @ [Awaited k (map fst proms)]\<rparr>)
                     | r \<Rightarrow> (r, w\<lparr>trace := tr\<rparr>))))"

definition sendAndWait :: "'d behaviour \<Rightarrow> string \<Rightarrow> 'd \<Rightarrow> 'd superbus
                            \<Rightarrow> result \<times> 'd superbus" where
  "sendAndWait beh channel data w =
     send_each beh channel data 0 (expandChannelsToListeners (sep w) channel) w"

text \<open>
  The body and the loop of \<open>sendLater\<close>: one closure is queued for each listener that
  gets past the guard \<open>cbs === undefined || cbs.size === 0\<close>, that is, for a listener
  with subscribers and for a listener whose name reads an inherited value.
\<close>

definition later_one :: "string \<Rightarrow> 'd \<Rightarrow> nat \<Rightarrow> string \<Rightarrow> 'd superbus
                          \<Rightarrow> 'd superbus" where
  "later_one channel data k listener w =
     (case lookup w listener of
        Undefined \<Rightarrow> w
      | Foreign \<Rightarrow>
          w\<lparr>ticks := ticks w @ [\<lparr>t_cbs = Foreign, t_channel = channel, t_data = data,
                                   t_level = k\<rparr>]\<rparr>
      | SetRef a \<Rightarrow>
          if set_size (sets w a) = 0 then w
          else w\<lparr>ticks := ticks w @ [\<lparr>t_cbs = SetRef a, t_channel = channel, t_data = data,
                                        t_level = k\<rparr>]\<rparr>)"

fun later_each :: "string \<Rightarrow> 'd \<Rightarrow> nat \<Rightarrow> string list \<Rightarrow> 'd superbus \<Rightarrow> 'd superbus" where
  "later_each channel data k [] w = w"
| "later_each channel data k (listener # listeners) w =
     later_each channel data (Suc k) listeners (later_one channel data k listener w)"

definition sendLater :: "string \<Rightarrow> 'd \<Rightarrow> 'd superbus \<Rightarrow> 'd superbus" where
  "sendLater channel data w =
     later_each channel data 0 (expandChannelsToListeners (sep w) channel) w"

text \<open>
  Running a queued closure: it enumerates the set it captured as the set is at that moment,
  and does not wait for promises. A callback that raises ends the closure with an uncaught
  exception (\<open>False\<close>).
\<close>

fun tick_each :: "'d behaviour \<Rightarrow> nat \<Rightarrow> string \<Rightarrow> 'd \<Rightarrow> cb list \<Rightarrow> 'd event list
                    \<Rightarrow> 'd event list \<times> bool" where
  "tick_each beh k channel data [] tr = (tr, True)"
| "tick_each beh k channel data (c # cbs) tr =
     (case beh tr c channel data of
        Throws \<Rightarrow> (tr @ [Invoked k c channel data Throws], False)
      | out \<Rightarrow> tick_each beh k channel data cbs (tr @ [Invoked k c channel data out]))"

text \<open>
  The queue is first in, first out. \<open>run_ticks\<close> runs the closures that are queued;
  an uncaught exception stops it with the rest of the queue left in place. A closure that
  captured a value other than a set raises a \<open>TypeError\<close> when it starts to enumerate.
\<close>

fun run_each :: "'d behaviour \<Rightarrow> 'd tick list \<Rightarrow> 'd superbus \<Rightarrow> 'd superbus" where
  "run_each beh [] w = w\<lparr>ticks := []\<rparr>"
| "run_each beh (t # ts) w =
     (case t_cbs t of
        SetRef a \<Rightarrow>
          (case tick_each beh (t_level t) (t_channel t) (t_data t) (sets w a) (trace w) of
             (tr, True) \<Rightarrow> run_each beh ts (w\<lparr>trace := tr\<rparr>)
           | (tr, False) \<Rightarrow> w\<lparr>trace := tr, ticks := ts\<rparr>)
      | _ \<Rightarrow> w\<lparr>trace := trace w @ [NotIterable (t_level t)], ticks := ts\<rparr>)"

definition run_ticks :: "'d behaviour \<Rightarrow> 'd superbus \<Rightarrow> 'd superbus" where
  "run_ticks beh w = run_each beh (ticks w) w"

subsection \<open>The registry as it is seen, and the states a bus goes through\<close>

text \<open>The callbacks registered under a channel: \<open>None\<close> when \<open>_subs\<close> has no such key.\<close>

definition registry :: "'d superbus \<Rightarrow> string \<Rightarrow> cb list option" where
  "registry w channel = map_option (sets w) (map_of (subs w) channel)"

definition subscribers :: "'d superbus \<Rightarrow> string \<Rightarrow> cb list" where
  "subscribers w channel = (case registry w channel of None \<Rightarrow> [] | Some cbs \<Rightarrow> cbs)"

text \<open>
  The states reached from a new bus by its public methods, by unsubscribe functions and
  by the queue running its closures. A call that raises leaves a state too.
\<close>

inductive reachable :: "'d behaviour \<Rightarrow> 'd superbus \<Rightarrow> bool" for beh :: "'d behaviour" where
  r_new: "reachable beh (Superbus s)"
| r_on: "reachable beh w \<Longrightarrow> reachable beh (snd (on channelInput callback w))"
| r_unsub: "reachable beh w \<Longrightarrow> reachable beh (snd (unsub h w))"
| r_removeAll: "reachable beh w \<Longrightarrow> reachable beh (removeAllSubscriptions w)"
| r_sendAndWait: "reachable beh w \<Longrightarrow> reachable beh (snd (sendAndWait beh channel data w))"
| r_sendLater: "reachable beh w \<Longrightarrow> reachable beh (sendLater channel data w)"
| r_ticks: "reachable beh w \<Longrightarrow> reachable beh (run_ticks beh w)"

text \<open>
  What holds of the store in every such state: a key occurs once in \<open>_subs\<close>, no key is an
  inherited name, two keys never share a set, the sets of the registry were allocated, none
  of them is empty, and none holds a callback twice.
\<close>

definition well_formed :: "'d superbus \<Rightarrow> bool" where
  "well_formed w \<longleftrightarrow>
     distinct (map fst (subs w)) \<and> distinct (map snd (subs w)) \<and>
     list_all (\<lambda>key. \<not> inherited key) (map fst (subs w)) \<and>
     list_all (\<lambda>a. a < fresh w \<and> sets w a \<noteq> [] \<and> distinct (sets w a))
       (map snd (subs w))"

subsection \<open>Reading the observations\<close>

text \<open>The observations added between two states, and the listener position of an observation.\<close>

definition new_events :: "'d superbus \<Rightarrow> 'd superbus \<Rightarrow> 'd event list" where
  "new_events w w' = drop (length (trace w)) (trace w')"

fun ev_level :: "'d event \<Rightarrow> nat" where
  "ev_level (Invoked k c channel data out) = k"
| "ev_level (Awaited k cbs) = k"
| "ev_level (NotIterable k) = k"

definition level_events :: "nat \<Rightarrow> 'd event list \<Rightarrow> 'd event list" where
  "level_events k evs = filter (\<lambda>e. ev_level e = k) evs"

text \<open>What was observed for the listeners before the \<open>k\<close>-th.\<close>

definition earlier :: "nat \<Rightarrow> 'd event list \<Rightarrow> 'd event list" where
  "earlier k evs = filter (\<lambda>e. ev_level e < k) evs"

text \<open>
  The callbacks invoked, in order, how often a given callback was invoked, and what each
  call was given: the callback, the channel and the data.
\<close>

fun invoked :: "'d event list \<Rightarrow> cb list" where
  "invoked [] = []"
| "invoked (Invoked k c channel data out # evs) = c # invoked evs"
| "invoked (Awaited k cbs # evs) = invoked evs"
| "invoked (NotIterable k # evs) = invoked evs"


fun received :: "'d event list \<Rightarrow> (cb \<times> string \<times> 'd) list" where
  "received [] = []"
| "received (Invoked k c channel data out # evs) = (c, channel, data) # received evs"
| "received (Awaited k cbs # evs) = received evs"
| "received (NotIterable k # evs) = received evs"

text \<open>
  A run of calls for one listener, as pairs of a callback and what its call did: the
  observations it stands for, the promises it leaves, and whether a call completed
  (it returned, or its promise was fulfilled).
\<close>

definition invocation :: "nat \<Rightarrow> string \<Rightarrow> 'd \<Rightarrow> cb \<times> outcome \<Rightarrow> 'd event" where
  "invocation k channel data p = Invoked k (fst p) channel data (snd p)"

fun promises :: "(cb \<times> outcome) list \<Rightarrow> (cb \<times> settle) list" where
  "promises [] = []"
| "promises ((c, Promise s) # cos) = (c, s) # promises cos"
| "promises ((c, out) # cos) = promises cos"

definition completed :: "outcome \<Rightarrow> bool" where
  "completed out \<longleftrightarrow> out = Returns \<or> out = Promise Fulfils"

text \<open>
  An observation after which a dispatch does not go on: a call that raised, a call whose
  promise is rejected or never settles, a \<open>TypeError\<close>. Those among them that reject the
  dispatch: a promise that never settles leaves it pending instead.
\<close>

fun failure :: "'d event \<Rightarrow> bool" where
  "failure (Invoked k c channel data out) = (\<not> completed out)"
| "failure (Awaited k cbs) = False"
| "failure (NotIterable k) = True"

fun rejection :: "'d event \<Rightarrow> bool" where
  "rejection (Invoked k c channel data out) = (out = Throws \<or> out = Promise Rejects)"
| "rejection (Awaited k cbs) = False"
| "rejection (NotIterable k) = True"

text \<open>
  The calls made for one listener, following the inner loop of \<open>sendAndWait\<close>: each callback
  of the set in turn, with the behaviour asked at the history of that moment, and nothing
  after a call that raises.
\<close>

fun outcomes :: "'d behaviour \<Rightarrow> nat \<Rightarrow> string \<Rightarrow> 'd \<Rightarrow> 'd event list \<Rightarrow> cb list
                   \<Rightarrow> (cb \<times> outcome) list" where
  "outcomes beh k channel data tr [] = []"
| "outcomes beh k channel data tr (c # cbs) =
     (c, beh tr c channel data)
       # (if beh tr c channel data = Throws then []
          else outcomes beh k channel data
                 (tr @ [Invoked k c channel data (beh tr c channel data)]) cbs)"


text \<open>
  The shape of the observations of a dispatch over the listeners from the \<open>k\<close>-th on,
  started at history \<open>h\<close>: a listener without subscribers is passed over; a listener whose
  name reads an inherited value, whose calls raise or whose promises are not all fulfilled
  ends the dispatch; otherwise the dispatch waits and goes on.
\<close>

inductive dispatched :: "'d behaviour \<Rightarrow> string \<Rightarrow> 'd \<Rightarrow> 'd superbus \<Rightarrow> nat \<Rightarrow> string list
                          \<Rightarrow> 'd event list \<Rightarrow> 'd event list \<Rightarrow> result \<Rightarrow> bool"
  for beh :: "'d behaviour" and channel :: string and data :: 'd and w :: "'d superbus" where
  d_end: "dispatched beh channel data w k [] h [] Resolved"
| d_skip: "lookup w l \<noteq> Foreign \<Longrightarrow> subscribers w l = []
           \<Longrightarrow> dispatched beh channel data w (Suc k) ls h evs r
           \<Longrightarrow> dispatched beh channel data w k (l # ls) h evs r"
| d_foreign: "lookup w l = Foreign
              \<Longrightarrow> dispatched beh channel data w k (l # ls) h [NotIterable k] Rejected"
| d_raise: "subscribers w l \<noteq> [] \<Longrightarrow> cos = outcomes beh k channel data h (subscribers w l)
            \<Longrightarrow> Throws \<in> set (map snd cos)
            \<Longrightarrow> dispatched beh channel data w k (l # ls) h
                  (map (invocation k channel data) cos) Rejected"
| d_stop: "subscribers w l \<noteq> [] \<Longrightarrow> cos = outcomes beh k channel data h (subscribers w l)
           \<Longrightarrow> Throws \<notin> set (map snd cos) \<Longrightarrow> await_all (promises cos) = r \<Longrightarrow> r \<noteq> Resolved
           \<Longrightarrow> dispatched beh channel data w k (l # ls) h
                 (map (invocation k channel data) cos) r"
| d_pass: "subscribers w l \<noteq> [] \<Longrightarrow> cos = outcomes beh k channel data h (subscribers w l)
           \<Longrightarrow> Throws \<notin> set (map snd cos) \<Longrightarrow> await_all (promises cos) = Resolved
           \<Longrightarrow> dispatched beh channel data w (Suc k) ls
                 (h @ map (invocation k channel data) cos @ [Awaited k (map fst (promises cos))])
                 evs r
           \<Longrightarrow> dispatched beh channel data w k (l # ls) h
                 (map (invocation k channel data) cos @ Awaited k (map fst (promises cos)) # evs)
                 r"

subsection \<open>Notions for stating what the operations do\<close>

text \<open>
  The state after a step of \<open>on\<close> that does not raise, and after the steps for a list of
  channels of which none raises.
\<close>

definition added :: "string \<Rightarrow> cb \<Rightarrow> 'd superbus \<Rightarrow> 'd superbus" where
  "added channel callback w =
     (case map_of (subs w) channel of
        None \<Rightarrow> w\<lparr>subs := subs w @ [(channel, fresh w)],
                  sets := (sets w)(fresh w := set_add callback []),
                  fresh := Suc (fresh w)\<rparr>
      | Some a \<Rightarrow> w\<lparr>sets := (sets w)(a := set_add callback (sets w a))\<rparr>)"

fun added_each :: "string list \<Rightarrow> cb \<Rightarrow> 'd superbus \<Rightarrow> 'd superbus" where
  "added_each [] callback w = w"
| "added_each (channel # channels) callback w =
     added_each channels callback (added channel callback w)"

text \<open>The same for the steps of an unsubscribe function.\<close>

definition removed :: "string \<Rightarrow> cb \<Rightarrow> 'd superbus \<Rightarrow> 'd superbus" where
  "removed channel callback w =
     (case map_of (subs w) channel of
        None \<Rightarrow> w
      | Some a \<Rightarrow>
          (let w' = w\<lparr>sets := (sets w)(a := set_delete callback (sets w a))\<rparr>
           in if set_size (sets w' a) = 0
              then w'\<lparr>subs := AList.delete channel (subs w')\<rparr>
              else w'))"

fun removed_each :: "string list \<Rightarrow> cb \<Rightarrow> 'd superbus \<Rightarrow> 'd superbus" where
  "removed_each [] callback w = w"
| "removed_each (channel # channels) callback w =
     removed_each channels callback (removed channel callback w)"

text \<open>A registry entry once a callback is taken out of it: an entry left empty is gone.\<close>

definition without :: "cb \<Rightarrow> cb list option \<Rightarrow> cb list option" where
  "without c r = (case r of None \<Rightarrow> None
                  | Some cbs \<Rightarrow> if set_delete c cbs = [] then None else Some (set_delete c cbs))"

text \<open>
  Nothing is left to do for an unsubscribe function at a channel: the channel has no entry, or
  its set is non-empty and does not hold the callback.
\<close>

definition settled_for :: "cb \<Rightarrow> 'd superbus \<Rightarrow> string \<Rightarrow> bool" where
  "settled_for c w ch \<longleftrightarrow>
     (case map_of (subs w) ch of None \<Rightarrow> True
      | Some a \<Rightarrow> c \<notin> set (sets w a) \<and> sets w a \<noteq> [])"

text \<open>The closure that \<open>sendLater\<close> queues for a listener, if it queues one.\<close>

definition units_for :: "'d superbus \<Rightarrow> string \<Rightarrow> 'd \<Rightarrow> nat \<Rightarrow> string \<Rightarrow> 'd tick list" where
  "units_for w channel data k listener =
     (case lookup w listener of
        Undefined \<Rightarrow> []
      | Foreign \<Rightarrow> [\<lparr>t_cbs = Foreign, t_channel = channel, t_data = data, t_level = k\<rparr>]
      | SetRef a \<Rightarrow> if sets w a = [] then []
                    else [\<lparr>t_cbs = SetRef a, t_channel = channel, t_data = data,
                           t_level = k\<rparr>])"

text \<open>
  The members, in a given state, of the set that a queued closure captured (none when what
  it captured is not a set); the calls the closure makes when it runs there and no callback
  raises; and the calls that the subscribers of a listener are due for a message.
\<close>

definition captured :: "'d superbus \<Rightarrow> 'd tick \<Rightarrow> cb list" where
  "captured w t = (case t_cbs t of SetRef a \<Rightarrow> sets w a | _ \<Rightarrow> [])"

definition tick_calls :: "'d superbus \<Rightarrow> 'd tick \<Rightarrow> (cb \<times> string \<times> 'd) list" where
  "tick_calls w t = map (\<lambda>c. (c, t_channel t, t_data t)) (captured w t)"

definition listener_calls :: "'d superbus \<Rightarrow> string \<Rightarrow> 'd \<Rightarrow> string
                               \<Rightarrow> (cb \<times> string \<times> 'd) list" where
  "listener_calls w channel data l = map (\<lambda>c. (c, channel, data)) (subscribers w l)"


text \<open>
  What holds of the queue in every reachable state: the set a queued closure captured was
  allocated, and it is still a set of the registry or it is empty.
\<close>

definition queue_ok :: "'d superbus \<Rightarrow> bool" where
  "queue_ok w \<longleftrightarrow>
     list_all (\<lambda>t. case t_cbs t of
                     SetRef a \<Rightarrow> a < fresh w \<and>
                                 (a \<in> set (map snd (subs w)) \<or> sets w a = [])
                   | _ \<Rightarrow> True)
       (ticks w)"

subsection \<open>Example behaviours and buses\<close>

text \<open>
  \<open>quiet\<close>: every callback returns at once. \<open>calm\<close>: callback 3 returns a promise that is
  fulfilled, every other callback returns at once. \<open>moody\<close>: callback 1 raises, callback 2
  returns a promise that is rejected, callback 3 a promise that is fulfilled, callback 4 a
  promise that never settles, and every other callback returns at once.
\<close>

definition quiet :: "unit behaviour" where
  "quiet h c channel data = Returns"


definition moody :: "unit behaviour" where
  "moody h c channel data =
     (if c = 1 then Throws else if c = 2 then Promise Rejects
      else if c = 3 then Promise Fulfils else if c = 4 then Promise Never else Returns)"

text \<open>
  \<open>ids_bus\<close>: callback 10 listens to \<open>changed\<close>, 11 to \<open>changed:12345\<close>, 12 to \<open>*\<close>.
  \<open>async_bus\<close>: callback 3 listens to \<open>changed\<close>, 11 to \<open>changed:12345\<close>, 12 to \<open>*\<close>.
  \<open>open_close_bus\<close>: callback 5 listens to \<open>open\<close>, then callback 6 to \<open>open\<close> and
  \<open>close\<close> in one call, of which \<open>open_close_handle\<close> is the unsubscribe function.
  \<open>twice_bus\<close>: callback 7 subscribed to \<open>open\<close> by two separate calls, \<open>first_handle\<close>
  being the unsubscribe function of the first. \<open>star_bus\<close>: callbacks 1 and 6 listen to
  \<open>*\<close>. \<open>fulfil_bus\<close>: callbacks 3 and 6 listen to \<open>*\<close>. \<open>never_bus\<close>: callbacks 4 and 6
  listen to \<open>*\<close>. \<open>refuse_bus\<close>: callbacks 2 and 6 listen to \<open>*\<close>. \<open>later_bus\<close>:
  callback 5 listens to \<open>open\<close> and a message on \<open>open\<close> was sent for later.
  \<open>apart_bus\<close>: callback 6 subscribed to \<open>open\<close>, then, by a separate call, to \<open>open\<close>
  and \<open>close\<close>; \<open>apart_bus'\<close>: the same two calls in the other order. \<open>open_handle\<close> is
  the unsubscribe function of the call for \<open>open\<close> alone.
\<close>

definition new_bus :: "unit superbus" where
  "new_bus = Superbus None"

definition ids_bus :: "unit superbus" where
  "ids_bus = snd (on (One ''*'') 12 (snd (on (One ''changed:12345'') 11
               (snd (on (One ''changed'') 10 new_bus)))))"


definition open_bus :: "unit superbus" where
  "open_bus = snd (on (One ''open'') 5 new_bus)"

definition open_close_bus :: "unit superbus" where
  "open_close_bus = snd (on (Many [''open'', ''close'']) 6 open_bus)"

definition open_close_handle :: handle where
  "open_close_handle = \<lparr>h_channels = [''open'', ''close''], h_callback = 6\<rparr>"

definition once_bus :: "unit superbus" where
  "once_bus = snd (on (One ''open'') 7 new_bus)"

definition twice_bus :: "unit superbus" where
  "twice_bus = snd (on (One ''open'') 7 once_bus)"

definition first_handle :: handle where
  "first_handle = \<lparr>h_channels = [''open''], h_callback = 7\<rparr>"

definition star_bus :: "unit superbus" where
  "star_bus = snd (on (One ''*'') 6 (snd (on (One ''*'') 1 new_bus)))"




definition later_bus :: "unit superbus" where
  "later_bus = sendLater ''open'' () open_bus"





definition apart_bus :: "unit superbus" where
  "apart_bus = snd (on (Many [''open'', ''close'']) 6 (snd (on (One ''open'') 6 new_bus)))"

definition apart_bus' :: "unit superbus" where
  "apart_bus' = snd (on (One ''open'') 6 (snd (on (Many [''open'', ''close'']) 6 new_bus)))"

definition open_handle :: handle where
  "open_handle = \<lparr>h_channels = [''open''], h_callback = 6\<rparr>"

text \<open>
  \<open>reject_bus\<close>: callbacks 2 and 4 listen to \<open>open\<close>, callback 6 to \<open>*\<close>.
\<close>

definition reject_bus :: "unit superbus" where
  "reject_bus = snd (on (One ''*'') 6 (snd (on (One ''open'') 4
                  (snd (on (One ''open'') 2 new_bus)))))"

text \<open>
  \<open>guarded_bus\<close>: callback 1 listens to \<open>open\<close>; callback 7 was subscribed to \<open>close\<close> and,
  by a separate call, to \<open>open\<close>. \<open>close_handle\<close> is the unsubscribe function of its
  subscription to \<open>close\<close>.
\<close>

definition guarded_bus :: "unit superbus" where
  "guarded_bus = snd (on (One ''open'') 7 (snd (on (One ''close'') 7
                   (snd (on (One ''open'') 1 new_bus)))))"

definition close_handle :: handle where
  "close_handle = \<lparr>h_channels = [''close''], h_callback = 7\<rparr>"

section \<open>What the channel expander returns\<close>

lemma occurs_at_iff: "occurs_at pat s i \<longleftrightarrow> (\<exists>pre post. s = pre @ pat @ post \<and> length pre = i)"
proof
  assume h: "occurs_at pat s i"
  then have "s = take i s @ pat @ drop (length pat) (drop i s)" 
    unfolding occurs_at_def by (metis append_take_drop_id)
  moreover have "length (take i s) = i" using h by (simp add: occurs_at_def)
  ultimately show "\<exists>pre post. s = pre @ pat @ post \<and> length pre = i" by blast
next
  assume "\<exists>pre post. s = pre @ pat @ post \<and> length pre = i"
  then show "occurs_at pat s i" by (auto simp: occurs_at_def)
qed

lemma occurs_at_prefix: "occurs_at pat s i \<longleftrightarrow> i \<le> length s \<and> prefix pat (drop i s)"
  unfolding occurs_at_def
  by (metis append_take_drop_id prefix_def append_eq_conv_conj)

lemma indexOf_from_none:
  "indexOf_from s k pat = - 1 \<longleftrightarrow> (\<forall>j. \<not> occurs_at pat s j)"
proof (induction s arbitrary: k)
  case Nil
  show ?case by (auto simp: occurs_at_def)
next
  case (Cons c s)
  have step: "(\<forall>j. \<not> occurs_at pat (c # s) j) \<longleftrightarrow> \<not> prefix pat (c # s) \<and> (\<forall>j. \<not> occurs_at pat s j)"
  proof -
    have "occurs_at pat (c # s) 0 \<longleftrightarrow> prefix pat (c # s)" by (simp add: occurs_at_prefix)
    moreover have "\<And>j. occurs_at pat (c # s) (Suc j) \<longleftrightarrow> occurs_at pat s j" by (simp add: occurs_at_def)
    ultimately show ?thesis by (metis not0_implies_Suc)
  qed
  show ?case using Cons.IH [of "Suc k"] by (simp add: step)
qed

lemma indexOf_from_first:
  "occurs_at pat s i \<Longrightarrow> (\<forall>j<i. \<not> occurs_at pat s j) \<Longrightarrow> indexOf_from s k pat = int (k + i)"
proof (induction s arbitrary: k i)
  case Nil
  then show ?case by (auto simp: occurs_at_def)
next
  case (Cons c s)
  show ?case
  proof (cases i)
    case 0
    with Cons.prems show ?thesis by (simp add: occurs_at_prefix)
  next
    case (Suc i')
    have "\<not> occurs_at pat (c # s) 0" using Cons.prems Suc by blast
    then have np: "\<not> prefix pat (c # s)" by (simp add: occurs_at_prefix)
    have a: "occurs_at pat s i'" using Cons.prems(1) Suc by (simp add: occurs_at_def)
    have b: "\<forall>j<i'. \<not> occurs_at pat s j"
    proof (intro allI impI)
      fix j assume "j < i'"
      then have "\<not> occurs_at pat (c # s) (Suc j)" using Cons.prems(2) Suc by simp
      then show "\<not> occurs_at pat s j" by (simp add: occurs_at_def)
    qed
    show ?thesis using Cons.IH [OF a b, of "Suc k"] np Suc by simp
  qed
qed

lemma indexOf_first: "occurs_at pat s i \<Longrightarrow> (\<forall>j<i. \<not> occurs_at pat s j) \<Longrightarrow> indexOf s pat = int i"
  using indexOf_from_first [of pat s i 0] by (simp add: indexOf_def)

lemma indexOf_none: "indexOf s pat = - 1 \<longleftrightarrow> (\<forall>j. \<not> occurs_at pat s j)"
  by (simp add: indexOf_def indexOf_from_none)

lemma split_js_first:
  assumes "sp \<noteq> []" "occurs_at sp s i" "\<forall>j<i. \<not> occurs_at sp s j"
  shows "split_js s sp 1 = [take i s]"
proof -
  have ix: "indexOf s sp = int i" using assms indexOf_first by blast
  then have "indexOf s sp \<noteq> - 1" by simp
  then show ?thesis using assms(1) ix by (simp add: split_js_def)
qed



lemma first_at_iff:
  "first_at sp c i \<longleftrightarrow>
     (\<exists>pre post. c = pre @ sp @ post \<and> length pre = i \<and>
        (\<forall>pre' post'. c = pre' @ sp @ post' \<longrightarrow> i \<le> length pre'))"
proof -
  have "first_at sp c i \<longleftrightarrow> occurs_at sp c i \<and> (\<forall>j. occurs_at sp c j \<longrightarrow> i \<le> j)"
    by (auto simp: first_at_def list_all_iff)
  then show ?thesis by (simp add: occurs_at_iff) blast
qed

lemma first_at_exists: "contains_sep sp c \<Longrightarrow> \<exists>i. first_at sp c i"
proof -
  assume "contains_sep sp c"
  then obtain j where j: "occurs_at sp c j" unfolding contains_sep_def list_ex_iff by blast
  define i where "i = (LEAST j. occurs_at sp c j)"
  have "occurs_at sp c i" unfolding i_def using j by (rule LeastI)
  moreover have "\<And>k. k < i \<Longrightarrow> \<not> occurs_at sp c k" unfolding i_def by (rule not_less_Least)
  ultimately show ?thesis by (auto simp: first_at_def list_all_iff)
qed

lemma expand_at_first:
  assumes "sp \<noteq> []" "first_at sp c i"
  shows "expandChannelsToListeners sp c = [c, take i c, ''*'']"
proof -
  have o: "occurs_at sp c i" and f: "\<forall>j<i. \<not> occurs_at sp c j"
    using assms(2) by (auto simp: first_at_def list_all_iff)
  have "indexOf c sp = int i" using o f by (rule indexOf_first)
  then have "indexOf c sp \<noteq> - 1" by simp
  moreover have "split_js c sp 1 = [take i c]" using assms(1) o f by (rule split_js_first)
  ultimately show ?thesis by (simp add: expandChannelsToListeners_def)
qed

lemma expand_no_sep:
  assumes "\<not> contains_sep sp c"
  shows "expandChannelsToListeners sp c = [c, ''*'']"
proof -
  have "\<forall>j. \<not> occurs_at sp c j"
    using assms unfolding contains_sep_def list_ex_iff set_upt
    by (auto simp: occurs_at_def less_Suc_eq_le)
  then have "indexOf c sp = - 1" by (simp add: indexOf_none)
  then show ?thesis by (simp add: expandChannelsToListeners_def)
qed

lemma first_at_append:
  assumes "first_at sp (pre @ sp) (length pre)"
  shows "first_at sp (pre @ sp @ post) (length pre)"
proof -
  have "occurs_at sp (pre @ sp @ post) (length pre)" by (simp add: occurs_at_def)
  moreover have "\<not> occurs_at sp (pre @ sp @ post) j" if "j < length pre" for j
  proof
    assume "occurs_at sp (pre @ sp @ post) j"
    then have t: "take (length sp) (drop j (pre @ sp @ post)) = sp" by (simp add: occurs_at_def)
    have "take (length sp) (drop j ((pre @ sp) @ post)) = take (length sp) (drop j (pre @ sp))"
      using that by simp
    then have "occurs_at sp (pre @ sp) j" using t that by (simp add: occurs_at_def)
    then show False using assms that by (auto simp: first_at_def list_all_iff)
  qed
  ultimately show ?thesis by (auto simp: first_at_def list_all_iff)
qed

lemma split_js_nonempty: "sp \<noteq> [] \<Longrightarrow> split_js c sp 1 \<noteq> []"
  by (simp add: split_js_def)

lemma constructor_sep_nonempty: "constructor_sep s \<noteq> []"
  by (simp add: constructor_sep_def Let_def split: option.splits)

text \<open>
  Claim C1. For a bus made by the constructor, a channel that contains the separator expands
  to exactly three listeners: the channel, its prefix before the first occurrence of the
  separator, and \<open>*\<close>; a channel that does not contain it expands to exactly two: the
  channel and \<open>*\<close>. The base is fixed by the first occurrence alone: whatever follows it
  (\<open>post\<close>, with or without further separators) has no influence.
\<close>

theorem expand_channel_listeners:
  "(contains_sep (constructor_sep s) c \<longrightarrow>
      (\<exists>i. first_at (constructor_sep s) c i \<and>
           expandChannelsToListeners (constructor_sep s) c = [c, take i c, ''*'']))
   \<and> (\<not> contains_sep (constructor_sep s) c \<longrightarrow>
        expandChannelsToListeners (constructor_sep s) c = [c, ''*''])
   \<and> (first_at (constructor_sep s) (pre @ constructor_sep s) (length pre) \<longrightarrow>
        expandChannelsToListeners (constructor_sep s) (pre @ constructor_sep s @ post)
          = [pre @ constructor_sep s @ post, pre, ''*''])"
proof (intro conjI impI)
  assume "contains_sep (constructor_sep s) c"
  then obtain i where "first_at (constructor_sep s) c i" using first_at_exists by blast
  then show "\<exists>i. first_at (constructor_sep s) c i \<and>
           expandChannelsToListeners (constructor_sep s) c = [c, take i c, ''*'']"
    using expand_at_first [OF constructor_sep_nonempty] by blast
next
  assume "\<not> contains_sep (constructor_sep s) c"
  then show "expandChannelsToListeners (constructor_sep s) c = [c, ''*'']"
    by (rule expand_no_sep)
next
  assume "first_at (constructor_sep s) (pre @ constructor_sep s) (length pre)"
  then have "first_at (constructor_sep s) (pre @ constructor_sep s @ post) (length pre)"
    by (rule first_at_append)
  then show "expandChannelsToListeners (constructor_sep s) (pre @ constructor_sep s @ post)
          = [pre @ constructor_sep s @ post, pre, ''*'']"
    using expand_at_first [OF constructor_sep_nonempty] by fastforce
qed

theorem expand_channel_listeners_witness:
  "contains_sep (constructor_sep None) ''changed:a:b''
   \<and> (\<exists>i. first_at (constructor_sep None) ''changed:a:b'' i \<and>
           expandChannelsToListeners (constructor_sep None) ''changed:a:b''
             = [''changed:a:b'', take i ''changed:a:b'', ''*''])
   \<and> \<not> contains_sep (constructor_sep None) ''banana''
   \<and> expandChannelsToListeners (constructor_sep None) ''banana'' = [''banana'', ''*'']
   \<and> first_at (constructor_sep None) (''changed'' @ constructor_sep None) (length ''changed'')
   \<and> expandChannelsToListeners (constructor_sep None) (''changed'' @ constructor_sep None @ ''a:b'')
          = [''changed'' @ constructor_sep None @ ''a:b'', ''changed'', ''*'']"
proof -
  have a: "contains_sep (constructor_sep None) ''changed:a:b''" by code_simp
  have b: "\<not> contains_sep (constructor_sep None) ''banana''" by code_simp
  have c: "first_at (constructor_sep None) (''changed'' @ constructor_sep None) (length ''changed'')"
    by code_simp
  show ?thesis
    using a b c
      expand_channel_listeners [of None "''changed:a:b''" "''changed''" "''a:b''"]
      expand_channel_listeners [of None "''banana''" "''changed''" "''a:b''"]
    by blast
qed

section \<open>The registry: what subscribing and unsubscribing keep\<close>

lemma map_of_addr_inj:
  assumes "distinct (map snd xs)" "map_of xs k1 = Some a" "map_of xs k2 = Some a"
  shows "k1 = k2"
proof -
  have "(k1, a) \<in> set xs" "(k2, a) \<in> set xs" using assms by (auto dest: map_of_SomeD)
  moreover have "inj_on snd (set xs)" using assms(1) by (simp add: distinct_map)
  ultimately have "snd (k1, a) = snd (k2, a) \<longrightarrow> (k1, a) = (k2, a)"
    by (meson inj_onD)
  then show ?thesis by simp
qed

lemma map_of_addr_in: "map_of xs k = Some a \<Longrightarrow> a \<in> set (map snd xs)"
  by (force dest: map_of_SomeD)

lemma well_formed_new: "well_formed (Superbus s)"
  by (simp add: well_formed_def Superbus_def)

lemma well_formed_lookup:
  assumes "well_formed w" "map_of (subs w) ch = Some a"
  shows "a < fresh w" "sets w a \<noteq> []" "distinct (sets w a)"
  using assms map_of_addr_in [OF assms(2)] by (auto simp: well_formed_def list_all_iff)

lemma set_add_nonempty: "set_add c xs \<noteq> []"
  by (auto simp: set_add_def)

lemma set_add_distinct: "distinct xs \<Longrightarrow> distinct (set_add c xs)"
  by (auto simp: set_add_def)

lemma well_formed_keys:
  "well_formed w \<Longrightarrow> key \<in> set (map fst (subs w)) \<Longrightarrow> \<not> inherited key"
  by (auto simp: well_formed_def list_all_iff)

lemma well_formed_added:
  assumes "well_formed w" "\<not> inherited ch"
  shows "well_formed (added ch c w)"
proof (cases "map_of (subs w) ch")
  case None
  then have "ch \<notin> set (map fst (subs w))" by (simp add: map_of_eq_None_iff)
  moreover have "fresh w \<notin> set (map snd (subs w))"
    using assms by (auto simp: well_formed_def list_all_iff)
  ultimately show ?thesis using assms None
    by (auto simp: well_formed_def added_def list_all_iff set_add_def)
next
  case (Some a)
  then show ?thesis using assms
    by (auto simp: well_formed_def added_def list_all_iff set_add_nonempty
          set_add_distinct)
qed

lemma registry_added:
  assumes "well_formed w"
  shows "registry (added ch c w) = (registry w)(ch \<mapsto> set_add c (subscribers w ch))"
proof (cases "map_of (subs w) ch")
  case None
  have "registry (added ch c w) x = ((registry w)(ch \<mapsto> set_add c (subscribers w ch))) x" for x
  proof (cases "map_of (subs w) x")
    case n: None
    then show ?thesis using None
      by (auto simp: registry_def added_def subscribers_def map_add_def)
  next
    case (Some b)
    then have "b \<noteq> fresh w" using well_formed_lookup(1) [OF assms Some] by simp
    then show ?thesis using None Some
      by (auto simp: registry_def added_def subscribers_def map_add_def)
  qed
  then show ?thesis by blast
next
  case (Some a)
  have "registry (added ch c w) x = ((registry w)(ch \<mapsto> set_add c (subscribers w ch))) x" for x
  proof (cases "map_of (subs w) x")
    case None
    then show ?thesis using Some by (auto simp: registry_def added_def subscribers_def)
  next
    case s: (Some b)
    have "b = a \<Longrightarrow> x = ch"
      using map_of_addr_inj [of "subs w" x a ch] s Some assms by (simp add: well_formed_def)
    then show ?thesis using Some s by (auto simp: registry_def added_def subscribers_def)
  qed
  then show ?thesis by blast
qed

lemma removed_None:
  "map_of (subs w) ch = None \<Longrightarrow> removed ch c w = w"
  by (simp add: removed_def)

lemma removed_Some:
  "map_of (subs w) ch = Some a \<Longrightarrow>
   removed ch c w =
     (if removeAll c (sets w a) = []
      then w\<lparr>sets := (sets w)(a := []), subs := AList.delete ch (subs w)\<rparr>
      else w\<lparr>sets := (sets w)(a := removeAll c (sets w a))\<rparr>)"
  by (simp add: removed_def Let_def set_size_def set_delete_def)

lemma well_formed_removed:
  assumes "well_formed w"
  shows "well_formed (removed ch c w)"
proof (cases "map_of (subs w) ch")
  case None
  then show ?thesis using assms by (simp add: removed_None)
next
  case (Some a)
  have d1: "distinct (map fst (subs w))" and d2: "distinct (map snd (subs w))"
    and ok: "\<And>b. b \<in> set (map snd (subs w)) \<Longrightarrow>
               b < fresh w \<and> sets w b \<noteq> [] \<and> distinct (sets w b)"
    and ks: "list_all (\<lambda>key. \<not> inherited key) (map fst (subs w))"
    using assms by (auto simp: well_formed_def list_all_iff)
  show ?thesis
  proof (cases "removeAll c (sets w a) = []")
    case True
    let ?w = "w\<lparr>sets := (sets w)(a := []), subs := AList.delete ch (subs w)\<rparr>"
    have e: "removed ch c w = ?w" using Some True by (simp add: removed_Some)
    have "distinct (map fst (AList.delete ch (subs w)))" using d1 by (rule distinct_delete)
    moreover have "distinct (map snd (AList.delete ch (subs w)))"
      unfolding AList.delete_eq using d2 by (rule distinct_map_filter)
    moreover have "b < fresh w \<and> ((sets w)(a := [])) b \<noteq> [] \<and> distinct (((sets w)(a := [])) b)"
      if "b \<in> set (map snd (AList.delete ch (subs w)))" for b
    proof -
      from that obtain k where k: "(k, b) \<in> set (subs w)" "k \<noteq> ch"
        by (auto simp: AList.delete_eq)
      then have m: "map_of (subs w) k = Some b" using d1 by simp
      have "b \<noteq> a" using map_of_addr_inj [OF d2 m] Some k(2) by blast
      moreover have "b \<in> set (map snd (subs w))" using k(1) by force
      ultimately show ?thesis using ok by simp
    qed
    moreover have "list_all (\<lambda>key. \<not> inherited key) (map fst (AList.delete ch (subs w)))"
      using ks by (auto simp: list_all_iff AList.delete_eq)
    ultimately have "well_formed ?w" by (simp add: well_formed_def list_all_iff)
    then show ?thesis by (simp add: e)
  next
    case False
    let ?w = "w\<lparr>sets := (sets w)(a := removeAll c (sets w a))\<rparr>"
    have e: "removed ch c w = ?w" using Some False by (simp add: removed_Some)
    have "b < fresh w \<and> ((sets w)(a := removeAll c (sets w a))) b \<noteq> []
            \<and> distinct (((sets w)(a := removeAll c (sets w a))) b)"
      if "b \<in> set (map snd (subs w))" for b
      using ok [OF that] False by (auto simp: distinct_removeAll)
    then have "well_formed ?w" using d1 d2 ks by (simp add: well_formed_def list_all_iff)
    then show ?thesis by (simp add: e)
  qed
qed

lemma registry_removed:
  assumes "well_formed w"
  shows "registry (removed ch c w) =
           (case registry w ch of
              None \<Rightarrow> registry w
            | Some cbs \<Rightarrow> if set_delete c cbs = [] then (registry w)(ch := None)
                         else (registry w)(ch \<mapsto> set_delete c cbs))"
proof (cases "map_of (subs w) ch")
  case None
  then show ?thesis by (simp add: removed_def registry_def)
next
  case (Some a)
  have other: "map_of (subs w) x = Some b \<Longrightarrow> x \<noteq> ch \<Longrightarrow> b \<noteq> a" for x b
    using map_of_addr_inj [of "subs w" x a ch] Some assms by (auto simp: well_formed_def)
  have "registry (removed ch c w) x =
           (case registry w ch of
              None \<Rightarrow> registry w
            | Some cbs \<Rightarrow> if set_delete c cbs = [] then (registry w)(ch := None)
                         else (registry w)(ch \<mapsto> set_delete c cbs)) x" for x
  proof (cases "map_of (subs w) x")
    case None
    then show ?thesis using Some
      by (auto simp: registry_def removed_def Let_def set_size_def delete_conv')
  next
    case s: (Some b)
    show ?thesis using Some s other [OF s]
      by (auto simp: registry_def removed_def Let_def set_size_def delete_conv')
  qed
  then show ?thesis by blast
qed

lemma set_add_idem: "set_add c (set_add c xs) = set_add c xs"
  by (simp add: set_add_def)

lemma well_formed_added_each:
  "well_formed w \<Longrightarrow> list_all (\<lambda>ch. \<not> inherited ch) chs \<Longrightarrow> well_formed (added_each chs c w)"
  by (induction chs arbitrary: w) (simp_all add: well_formed_added)

lemma registry_added_each:
  "well_formed w \<Longrightarrow> list_all (\<lambda>ch. \<not> inherited ch) chs \<Longrightarrow>
   registry (added_each chs c w) ch =
     (if ch \<in> set chs then Some (set_add c (subscribers w ch)) else registry w ch)"
proof (induction chs arbitrary: w)
  case Nil
  then show ?case by simp
next
  case (Cons x chs)
  let ?w = "added x c w"
  have nx: "\<not> inherited x" and rest: "list_all (\<lambda>ch. \<not> inherited ch) chs"
    using Cons.prems(2) by simp_all
  have wf: "well_formed ?w" using Cons.prems(1) nx by (rule well_formed_added)
  have r: "registry ?w = (registry w)(x \<mapsto> set_add c (subscribers w x))"
    using Cons.prems(1) by (rule registry_added)
  have s: "subscribers ?w y = (if y = x then set_add c (subscribers w x) else subscribers w y)"
    for y by (simp add: subscribers_def r)
  show ?case using Cons.IH [OF wf rest] by (simp add: r s set_add_idem)
qed

lemma well_formed_removed_each: "well_formed w \<Longrightarrow> well_formed (removed_each chs c w)"
  by (induction chs arbitrary: w) (simp_all add: well_formed_removed)

lemma without_idem: "without c (without c r) = without c r"
  by (auto simp: without_def set_delete_def split: option.splits)

lemma registry_removed_at:
  "well_formed w \<Longrightarrow>
   registry (removed x c w) ch = (if ch = x then without c (registry w ch) else registry w ch)"
  by (auto simp: registry_removed without_def split: option.splits)

lemma registry_removed_each:
  "well_formed w \<Longrightarrow>
   registry (removed_each chs c w) ch =
     (if ch \<in> set chs then without c (registry w ch) else registry w ch)"
proof (induction chs arbitrary: w)
  case Nil
  then show ?case by simp
next
  case (Cons x chs)
  let ?w = "removed x c w"
  have wf: "well_formed ?w" using Cons.prems by (rule well_formed_removed)
  have r: "registry ?w y = (if y = x then without c (registry w y) else registry w y)" for y
    using Cons.prems by (rule registry_removed_at)
  show ?case using Cons.IH [OF wf] by (simp add: r without_idem)
qed

lemma clear_sets_apply:
  "foldl (\<lambda>h a. h(a := [])) h as b = (if b \<in> set as then [] else h b)"
  by (induction as arbitrary: h) auto

lemma well_formed_removeAll: "well_formed (removeAllSubscriptions w)"
  by (simp add: well_formed_def removeAllSubscriptions_def)

lemma registry_removeAll: "registry (removeAllSubscriptions w) ch = None"
  by (simp add: registry_def removeAllSubscriptions_def)

lemma lookup_trace [simp]: "lookup (w\<lparr>trace := tr\<rparr>) = lookup w"
  by (simp add: lookup_def fun_eq_iff)

lemma lookup_ticks [simp]: "lookup (w\<lparr>ticks := ts\<rparr>) = lookup w"
  by (simp add: lookup_def fun_eq_iff)

lemma lookup_SetRef: "lookup w l = SetRef a \<longleftrightarrow> map_of (subs w) l = Some a"
  by (simp add: lookup_def split: option.splits)

lemma lookup_Foreign: "lookup w l = Foreign \<longleftrightarrow> map_of (subs w) l = None \<and> inherited l"
  by (simp add: lookup_def split: option.splits)

lemma lookup_Undefined:
  "lookup w l = Undefined \<longleftrightarrow> map_of (subs w) l = None \<and> \<not> inherited l"
  by (simp add: lookup_def split: option.splits)

lemma lookup_foreign_iff:
  assumes "well_formed w"
  shows "lookup w l = Foreign \<longleftrightarrow> inherited l"
proof
  assume "lookup w l = Foreign"
  then show "inherited l" by (simp add: lookup_Foreign)
next
  assume i: "inherited l"
  then have "l \<notin> set (map fst (subs w))" using well_formed_keys [OF assms] by blast
  then have "map_of (subs w) l = None" by (simp add: map_of_eq_None_iff)
  then show "lookup w l = Foreign" using i by (simp add: lookup_Foreign)
qed

lemma subscribe_one_eq:
  "subscribe_one ch c w = (if lookup w ch = Foreign then Inl TypeError else Inr (added ch c w))"
  by (auto simp: subscribe_one_def added_def lookup_def split: option.splits)

lemma unsubscribe_one_eq:
  "unsubscribe_one ch c w =
     (if lookup w ch = Foreign then Inl TypeError else Inr (removed ch c w))"
  by (auto simp: unsubscribe_one_def removed_def lookup_def split: option.splits)

lemma subscribe_each_eq:
  "well_formed w \<Longrightarrow>
   subscribe_each chs c w =
     (if list_ex inherited chs then Some TypeError else None,
      added_each (takeWhile (\<lambda>ch. \<not> inherited ch) chs) c w)"
proof (induction chs arbitrary: w)
  case Nil
  show ?case by simp
next
  case (Cons x chs)
  show ?case
  proof (cases "inherited x")
    case True
    then have "lookup w x = Foreign" using Cons.prems by (simp add: lookup_foreign_iff)
    then show ?thesis using True by (simp add: subscribe_one_eq)
  next
    case False
    then have n: "lookup w x \<noteq> Foreign" using Cons.prems by (simp add: lookup_foreign_iff)
    have wf: "well_formed (added x c w)" using Cons.prems False by (rule well_formed_added)
    show ?thesis using False n Cons.IH [OF wf] by (simp add: subscribe_one_eq)
  qed
qed

lemma unsubscribe_each_eq:
  "well_formed w \<Longrightarrow>
   unsubscribe_each chs c w =
     (if list_ex inherited chs then Some TypeError else None,
      removed_each (takeWhile (\<lambda>ch. \<not> inherited ch) chs) c w)"
proof (induction chs arbitrary: w)
  case Nil
  show ?case by simp
next
  case (Cons x chs)
  show ?case
  proof (cases "inherited x")
    case True
    then have "lookup w x = Foreign" using Cons.prems by (simp add: lookup_foreign_iff)
    then show ?thesis using True by (simp add: unsubscribe_one_eq)
  next
    case False
    then have n: "lookup w x \<noteq> Foreign" using Cons.prems by (simp add: lookup_foreign_iff)
    have wf: "well_formed (removed x c w)" using Cons.prems by (rule well_formed_removed)
    show ?thesis using False n Cons.IH [OF wf] by (simp add: unsubscribe_one_eq)
  qed
qed

lemma takeWhile_all: "list_all P xs \<Longrightarrow> takeWhile P xs = xs"
  by (induction xs) auto

lemma takeWhile_holds: "list_all P (takeWhile P xs)"
  by (induction xs) auto

lemma no_inherited_iff: "\<not> list_ex inherited chs \<longleftrightarrow> list_all (\<lambda>ch. \<not> inherited ch) chs"
  by (induction chs) auto

lemma snd_on:
  "well_formed w \<Longrightarrow>
   snd (on i c w) = added_each (takeWhile (\<lambda>ch. \<not> inherited ch) (channels_of i)) c w"
  by (simp add: on_def Let_def subscribe_each_eq)

lemma fst_on:
  "well_formed w \<Longrightarrow>
   fst (on i c w) =
     (if list_ex inherited (channels_of i) then Inl TypeError
      else Inr \<lparr>h_channels = channels_of i, h_callback = c\<rparr>)"
  by (simp add: on_def Let_def subscribe_each_eq)

lemma on_returns:
  assumes "well_formed w" "fst (on i c w) = Inr h"
  shows "h = \<lparr>h_channels = channels_of i, h_callback = c\<rparr>"
    "list_all (\<lambda>ch. \<not> inherited ch) (channels_of i)"
    "snd (on i c w) = added_each (channels_of i) c w"
proof -
  have n: "\<not> list_ex inherited (channels_of i)"
    using assms by (auto simp: fst_on split: if_splits)
  then show a: "list_all (\<lambda>ch. \<not> inherited ch) (channels_of i)" by (simp add: no_inherited_iff)
  show "h = \<lparr>h_channels = channels_of i, h_callback = c\<rparr>"
    using assms n by (simp add: fst_on)
  show "snd (on i c w) = added_each (channels_of i) c w"
    using assms(1) a by (simp add: snd_on takeWhile_all)
qed

lemma unsub_eq:
  assumes "well_formed w" "list_all (\<lambda>ch. \<not> inherited ch) (h_channels h)"
  shows "unsub h w = (None, removed_each (h_channels h) (h_callback h) w)"
  using assms by (simp add: unsub_def unsubscribe_each_eq takeWhile_all no_inherited_iff [symmetric])

lemma snd_unsub:
  "well_formed w \<Longrightarrow>
   snd (unsub h w)
     = removed_each (takeWhile (\<lambda>ch. \<not> inherited ch) (h_channels h)) (h_callback h) w"
  by (simp add: unsub_def unsubscribe_each_eq)

lemma send_each_state:
  "\<exists>tr. snd (send_each beh ch d k ls w) = w\<lparr>trace := tr\<rparr>"
proof (induction ls arbitrary: k w)
  case Nil
  have "w = w\<lparr>trace := trace w\<rparr>" by simp
  then show ?case by (metis send_each.simps(1) snd_conv)
next
  case (Cons l ls)
  show ?case
  proof (cases "lookup w l")
    case Undefined
    then show ?thesis using Cons.IH [of "Suc k" w] by simp
  next
    case Foreign
    then show ?thesis by auto
  next
    case (SetRef a)
    show ?thesis
    proof (cases "set_size (sets w a) = 0")
      case True
      then show ?thesis using SetRef Cons.IH [of "Suc k" w] by simp
    next
      case False
      obtain tr res where c: "call_each beh k ch d (sets w a) (trace w) [] = (tr, res)"
        by (cases "call_each beh k ch d (sets w a) (trace w) []") auto
      show ?thesis
      proof (cases res)
        case None
        then show ?thesis using SetRef False c by auto
      next
        case s: (Some proms)
        show ?thesis
        proof (cases "await_all proms")
          case Resolved
          obtain tr' where "snd (send_each beh ch d (Suc k) ls (w\<lparr>trace := tr @ [Awaited k (map fst proms)]\<rparr>))
              = w\<lparr>trace := tr @ [Awaited k (map fst proms)]\<rparr>\<lparr>trace := tr'\<rparr>"
            using Cons.IH [of "Suc k" "w\<lparr>trace := tr @ [Awaited k (map fst proms)]\<rparr>"] by blast
          then show ?thesis using SetRef False c s Resolved by auto
        next
          case Rejected
          then show ?thesis using SetRef False c s by auto
        next
          case Pending
          then show ?thesis using SetRef False c s by auto
        qed
      qed
    qed
  qed
qed

lemma sendAndWait_state: "\<exists>tr. snd (sendAndWait beh ch d w) = w\<lparr>trace := tr\<rparr>"
  unfolding sendAndWait_def by (rule send_each_state)

lemma units_for_ticks [simp]: "units_for (w\<lparr>ticks := ts\<rparr>) = units_for w"
  by (simp add: units_for_def fun_eq_iff split: slot.splits)

lemma later_one_eq: "later_one ch d k l w = w\<lparr>ticks := ticks w @ units_for w ch d k l\<rparr>"
  by (simp add: later_one_def units_for_def set_size_def split: slot.splits)

lemma later_each_eq:
  "later_each ch d k ls w =
     w\<lparr>ticks := ticks w @ concat (map (\<lambda>(i, l). units_for w ch d i l) (enumerate k ls))\<rparr>"
  by (induction ls arbitrary: k w) (simp_all add: later_one_eq)

lemma later_each_state: "\<exists>ts. later_each ch d k ls w = w\<lparr>ticks := ts\<rparr>"
  by (rule exI, rule later_each_eq)

lemma sendLater_state: "\<exists>ts. sendLater ch d w = w\<lparr>ticks := ts\<rparr>"
  unfolding sendLater_def by (rule later_each_state)

lemma run_each_state: "\<exists>tr ts'. run_each beh ts w = w\<lparr>trace := tr, ticks := ts'\<rparr>"
proof (induction ts arbitrary: w)
  case Nil
  have "w\<lparr>ticks := []\<rparr> = w\<lparr>trace := trace w, ticks := []\<rparr>" by simp
  then show ?case by (metis run_each.simps(1))
next
  case (Cons t ts)
  show ?case
  proof (cases "t_cbs t")
    case Undefined
    then show ?thesis by auto
  next
    case Foreign
    then show ?thesis by auto
  next
    case (SetRef a)
    obtain tr ok where c: "tick_each beh (t_level t) (t_channel t) (t_data t) (sets w a) (trace w) = (tr, ok)"
      by (cases "tick_each beh (t_level t) (t_channel t) (t_data t) (sets w a) (trace w)") auto
    show ?thesis
    proof (cases ok)
      case True
      obtain tr' ts' where "run_each beh ts (w\<lparr>trace := tr\<rparr>) = w\<lparr>trace := tr\<rparr>\<lparr>trace := tr', ticks := ts'\<rparr>"
        using Cons.IH [of "w\<lparr>trace := tr\<rparr>"] by blast
      then show ?thesis using c True SetRef by auto
    next
      case False
      then show ?thesis using c SetRef by auto
    qed
  qed
qed

lemma run_ticks_state: "\<exists>tr ts'. run_ticks beh w = w\<lparr>trace := tr, ticks := ts'\<rparr>"
  unfolding run_ticks_def by (rule run_each_state)

lemma well_formed_trace [simp]: "well_formed (w\<lparr>trace := tr\<rparr>) = well_formed w"
  by (simp add: well_formed_def)

lemma well_formed_ticks [simp]: "well_formed (w\<lparr>ticks := ts\<rparr>) = well_formed w"
  by (simp add: well_formed_def)

lemma registry_trace [simp]: "registry (w\<lparr>trace := tr\<rparr>) = registry w"
  by (simp add: registry_def fun_eq_iff)

lemma registry_ticks [simp]: "registry (w\<lparr>ticks := ts\<rparr>) = registry w"
  by (simp add: registry_def fun_eq_iff)

lemma reachable_well_formed: "reachable beh w \<Longrightarrow> well_formed w"
proof (induction rule: reachable.induct)
  case (r_new s)
  show ?case by (rule well_formed_new)
next
  case (r_on w channelInput callback)
  then show ?case by (simp add: snd_on well_formed_added_each takeWhile_holds)
next
  case (r_unsub w h)
  then show ?case by (simp add: snd_unsub well_formed_removed_each)
next
  case (r_removeAll w)
  show ?case by (rule well_formed_removeAll)
next
  case (r_sendAndWait w channel data)
  obtain tr where "snd (sendAndWait beh channel data w) = w\<lparr>trace := tr\<rparr>"
    using sendAndWait_state [of beh channel data w] by blast
  then show ?case using r_sendAndWait.IH by simp
next
  case (r_sendLater w channel data)
  obtain ts where "sendLater channel data w = w\<lparr>ticks := ts\<rparr>"
    using sendLater_state [of channel data w] by blast
  then show ?case using r_sendLater.IH by simp
next
  case (r_ticks w)
  obtain tr ts where "run_ticks beh w = w\<lparr>trace := tr, ticks := ts\<rparr>"
    using run_ticks_state [of beh w] by blast
  then show ?case using r_ticks.IH by simp
qed

lemma registry_nonempty: "well_formed w \<Longrightarrow> registry w ch \<noteq> Some []"
proof
  assume wf: "well_formed w" and "registry w ch = Some []"
  then obtain a where "map_of (subs w) ch = Some a" "sets w a = []"
    by (auto simp: registry_def)
  then show False using well_formed_lookup(2) [OF wf] by blast
qed

lemma removed_settled_id:
  assumes "settled_for c w ch"
  shows "removed ch c w = w"
proof (cases "map_of (subs w) ch")
  case None
  then show ?thesis by (rule removed_None)
next
  case (Some a)
  then have "c \<notin> set (sets w a)" "sets w a \<noteq> []" using assms by (auto simp: settled_for_def)
  then have "removeAll c (sets w a) = sets w a" "removeAll c (sets w a) \<noteq> []" by simp_all
  then show ?thesis using Some by (simp add: removed_Some)
qed

lemma removed_settles: "settled_for c (removed ch c w) ch"
proof (cases "map_of (subs w) ch")
  case None
  then show ?thesis by (simp add: removed_None settled_for_def)
next
  case (Some a)
  then show ?thesis
    by (simp add: removed_Some settled_for_def delete_conv')
qed

lemma removed_keeps_settled:
  assumes "settled_for c w ch"
  shows "settled_for c (removed x c w) ch"
proof (cases "map_of (subs w) x")
  case None
  then show ?thesis using assms by (simp add: removed_None)
next
  case (Some b)
  show ?thesis
  proof (cases "map_of (subs w) ch")
    case None
    then show ?thesis using Some
      by (simp add: removed_Some settled_for_def delete_conv')
  next
    case a: (Some a)
    then have ca: "c \<notin> set (sets w a)" "sets w a \<noteq> []"
      using assms by (auto simp: settled_for_def)
    show ?thesis
    proof (cases "a = b")
      case True
      then have "removeAll c (sets w b) = sets w b" "removeAll c (sets w b) \<noteq> []"
        using ca by simp_all
      then show ?thesis using Some a ca True
        by (simp add: removed_Some settled_for_def)
    next
      case False
      then show ?thesis using Some a ca
        by (simp add: removed_Some settled_for_def delete_conv')
    qed
  qed
qed

lemma removed_each_keeps_settled:
  "settled_for c w ch \<Longrightarrow> settled_for c (removed_each chs c w) ch"
  by (induction chs arbitrary: w) (simp_all add: removed_keeps_settled)

lemma removed_each_settles:
  "ch \<in> set chs \<Longrightarrow> settled_for c (removed_each chs c w) ch"
proof (induction chs arbitrary: w)
  case Nil
  then show ?case by simp
next
  case (Cons x chs)
  show ?case
  proof (cases "ch = x")
    case True
    have "settled_for c (removed x c w) x" by (rule removed_settles)
    then show ?thesis using True by (simp add: removed_each_keeps_settled)
  next
    case False
    then show ?thesis using Cons by simp
  qed
qed

lemma removed_each_settled_id:
  "(\<And>ch. ch \<in> set chs \<Longrightarrow> settled_for c w ch) \<Longrightarrow> removed_each chs c w = w"
  by (induction chs arbitrary: w) (simp_all add: removed_settled_id)

lemma removed_each_twice:
  "removed_each chs c (removed_each chs c w) = removed_each chs c w"
  by (rule removed_each_settled_id) (rule removed_each_settles)

lemma unsub_twice:
  assumes "well_formed w" "list_all (\<lambda>ch. \<not> inherited ch) (h_channels h)"
  shows "unsub h (snd (unsub h w)) = (None, snd (unsub h w))"
proof -
  have e: "unsub h w = (None, removed_each (h_channels h) (h_callback h) w)"
    using assms by (rule unsub_eq)
  have "well_formed (removed_each (h_channels h) (h_callback h) w)"
    using assms(1) by (rule well_formed_removed_each)
  then have "unsub h (removed_each (h_channels h) (h_callback h) w)
               = (None, removed_each (h_channels h) (h_callback h)
                          (removed_each (h_channels h) (h_callback h) w))"
    using assms(2) by (rule unsub_eq)
  then show ?thesis by (simp add: e removed_each_twice)
qed

section \<open>Dispatch: the shape of the observations\<close>

lemma promises_append: "promises (xs @ ys) = promises xs @ promises ys"
  by (induction xs rule: promises.induct) auto

lemma call_each_outcomes:
  "call_each beh k ch d cbs tr ps =
     (tr @ map (invocation k ch d) (outcomes beh k ch d tr cbs),
      if Throws \<in> set (map snd (outcomes beh k ch d tr cbs)) then None
      else Some (ps @ promises (outcomes beh k ch d tr cbs)))"
proof (induction cbs arbitrary: tr ps)
  case Nil
  show ?case by simp
next
  case (Cons c cbs)
  show ?case
  proof (cases "beh tr c ch d")
    case Returns
    then show ?thesis using Cons.IH by (simp add: invocation_def)
  next
    case Throws
    then show ?thesis by (simp add: invocation_def)
  next
    case (Promise s)
    then show ?thesis using Cons.IH by (simp add: invocation_def)
  qed
qed

lemma subscribers_eq:
  "subscribers w l = (case map_of (subs w) l of None \<Rightarrow> [] | Some a \<Rightarrow> sets w a)"
  by (simp add: subscribers_def registry_def split: option.splits)

lemma subscribers_trace [simp]: "subscribers (w\<lparr>trace := tr\<rparr>) = subscribers w"
  by (simp add: subscribers_def fun_eq_iff)

lemma subscribers_ticks [simp]: "subscribers (w\<lparr>ticks := ts\<rparr>) = subscribers w"
  by (simp add: subscribers_def fun_eq_iff)

lemma dispatched_same_subscribers:
  assumes "dispatched beh ch d w k ls h evs r" "subscribers w' = subscribers w"
    "lookup w' = lookup w"
  shows "dispatched beh ch d w' k ls h evs r"
  using assms
proof (induction rule: dispatched.induct)
  case (d_end k h)
  show ?case by (rule dispatched.d_end)
next
  case (d_skip l k ls h evs r)
  then show ?case by (simp add: dispatched.d_skip)
next
  case (d_foreign l k ls h)
  then show ?case by (simp add: dispatched.d_foreign)
next
  case (d_raise l cos k h ls)
  then show ?case using dispatched.d_raise [of w' l cos beh k ch d h ls] by simp
next
  case (d_stop l cos k h r ls)
  then show ?case using dispatched.d_stop [of w' l cos beh k ch d h r ls] by simp
next
  case (d_pass l cos k h ls evs r)
  then show ?case using dispatched.d_pass [of w' l cos beh k ch d h ls evs r] by simp
qed

lemma subscribers_lookup:
  "subscribers w l = (case lookup w l of SetRef a \<Rightarrow> sets w a | _ \<Rightarrow> [])"
  by (simp add: subscribers_eq lookup_def split: option.splits)

lemma send_each_skip:
  "lookup w l \<noteq> Foreign \<Longrightarrow> subscribers w l = [] \<Longrightarrow>
   send_each beh ch d k (l # ls) w = send_each beh ch d (Suc k) ls w"
  by (simp add: subscribers_lookup set_size_def split: slot.splits)

lemma send_each_foreign:
  "lookup w l = Foreign \<Longrightarrow>
   send_each beh ch d k (l # ls) w = (Rejected, w\<lparr>trace := trace w @ [NotIterable k]\<rparr>)"
  by simp

lemma send_each_call:
  assumes "subscribers w l \<noteq> []"
  shows "send_each beh ch d k (l # ls) w =
     (let cos = outcomes beh k ch d (trace w) (subscribers w l);
          tr = trace w @ map (invocation k ch d) cos
      in if Throws \<in> set (map snd cos) then (Rejected, w\<lparr>trace := tr\<rparr>)
         else (case await_all (promises cos) of
                 Resolved \<Rightarrow> send_each beh ch d (Suc k) ls
                               (w\<lparr>trace := tr @ [Awaited k (map fst (promises cos))]\<rparr>)
               | r \<Rightarrow> (r, w\<lparr>trace := tr\<rparr>)))"
proof -
  obtain a where a: "lookup w l = SetRef a" "sets w a \<noteq> []" "subscribers w l = sets w a"
    using assms by (auto simp: subscribers_lookup split: slot.splits)
  show ?thesis
    by (simp add: a set_size_def call_each_outcomes Let_def)
qed

lemma send_each_dispatched:
  "\<exists>evs. snd (send_each beh ch d k ls w) = w\<lparr>trace := trace w @ evs\<rparr>
         \<and> dispatched beh ch d w k ls (trace w) evs (fst (send_each beh ch d k ls w))"
proof (induction ls arbitrary: k w)
  case Nil
  have "w = w\<lparr>trace := trace w @ []\<rparr>" by simp
  then show ?case using dispatched.d_end [of beh ch d w k "trace w"] by (metis send_each.simps(1) fst_conv snd_conv)
next
  case (Cons l ls)
  consider (foreign) "lookup w l = Foreign"
    | (skip) "lookup w l \<noteq> Foreign" "subscribers w l = []"
    | (call) "subscribers w l \<noteq> []"
    by blast
  then show ?case
  proof cases
    case foreign
    have "dispatched beh ch d w k (l # ls) (trace w) [NotIterable k] Rejected"
      using foreign by (rule dispatched.d_foreign)
    then show ?thesis unfolding send_each_foreign [OF foreign] by auto
  next
    case skip
    obtain evs where e: "snd (send_each beh ch d (Suc k) ls w) = w\<lparr>trace := trace w @ evs\<rparr>"
      "dispatched beh ch d w (Suc k) ls (trace w) evs (fst (send_each beh ch d (Suc k) ls w))"
      using Cons.IH [of "Suc k" w] by blast
    show ?thesis unfolding send_each_skip [OF skip]
      using e(1) dispatched.d_skip [OF skip e(2)] by blast
  next
    case False: call
    define cos where "cos = outcomes beh k ch d (trace w) (subscribers w l)"
    define es where "es = map (invocation k ch d) cos"
    show ?thesis
    proof (cases "Throws \<in> set (map snd cos)")
      case True
      have "send_each beh ch d k (l # ls) w = (Rejected, w\<lparr>trace := trace w @ es\<rparr>)"
        using True by (simp only: send_each_call [OF False] cos_def es_def Let_def if_True)
      moreover have "dispatched beh ch d w k (l # ls) (trace w) es Rejected"
        unfolding es_def using False cos_def True by (rule dispatched.d_raise)
      ultimately show ?thesis by auto
    next
      case nt: False
      show ?thesis
      proof (cases "await_all (promises cos) = Resolved")
        case True
        let ?aw = "Awaited k (map fst (promises cos))"
        let ?w = "w\<lparr>trace := trace w @ es @ [?aw]\<rparr>"
        have s: "send_each beh ch d k (l # ls) w = send_each beh ch d (Suc k) ls ?w"
          using nt True unfolding send_each_call [OF False] cos_def es_def Let_def
          by (simp del: send_each.simps)
        obtain evs where e: "snd (send_each beh ch d (Suc k) ls ?w) = ?w\<lparr>trace := trace ?w @ evs\<rparr>"
          "dispatched beh ch d ?w (Suc k) ls (trace ?w) evs (fst (send_each beh ch d (Suc k) ls ?w))"
          using Cons.IH [of "Suc k" ?w] by blast
        have "dispatched beh ch d w (Suc k) ls (trace w @ es @ [?aw]) evs
                (fst (send_each beh ch d (Suc k) ls ?w))"
          using dispatched_same_subscribers [OF e(2), of w] by simp
        then have "dispatched beh ch d w k (l # ls) (trace w) (es @ ?aw # evs)
                (fst (send_each beh ch d (Suc k) ls ?w))"
          unfolding es_def using dispatched.d_pass [OF False cos_def nt True] by blast
        moreover have "snd (send_each beh ch d (Suc k) ls ?w) = w\<lparr>trace := trace w @ es @ ?aw # evs\<rparr>"
          using e(1) by simp
        ultimately show ?thesis unfolding s by blast
      next
        case nr: False
        have "send_each beh ch d k (l # ls) w = (await_all (promises cos), w\<lparr>trace := trace w @ es\<rparr>)"
          using nt nr unfolding send_each_call [OF False] cos_def es_def Let_def
          by (cases "await_all (promises (outcomes beh k ch d (trace w) (subscribers w l)))")
            (simp_all del: send_each.simps)
        moreover have "dispatched beh ch d w k (l # ls) (trace w) es (await_all (promises cos))"
          unfolding es_def using False cos_def nt _ nr by (rule dispatched.d_stop) simp
        ultimately show ?thesis by auto
      qed
    qed
  qed
qed

lemma sendAndWait_dispatched:
  "trace (snd (sendAndWait beh ch d w)) = trace w @ new_events w (snd (sendAndWait beh ch d w))
   \<and> dispatched beh ch d w 0 (expandChannelsToListeners (sep w) ch) (trace w)
       (new_events w (snd (sendAndWait beh ch d w))) (fst (sendAndWait beh ch d w))"
proof -
  obtain evs where e: "snd (sendAndWait beh ch d w) = w\<lparr>trace := trace w @ evs\<rparr>"
    "dispatched beh ch d w 0 (expandChannelsToListeners (sep w) ch) (trace w) evs
       (fst (sendAndWait beh ch d w))"
    unfolding sendAndWait_def
    using send_each_dispatched [of beh ch d 0 "expandChannelsToListeners (sep w) ch" w] by blast
  then have "new_events w (snd (sendAndWait beh ch d w)) = evs" by (simp add: new_events_def)
  then show ?thesis using e by simp
qed

lemma invocation_pair [simp]: "invocation k ch d (c, out) = Invoked k c ch d out"
  by (simp add: invocation_def)

lemma outcomes_prefix: "prefix (map fst (outcomes beh k ch d tr cbs)) cbs"
  by (induction cbs arbitrary: tr) auto


lemma outcomes_all:
  "Throws \<notin> set (map snd (outcomes beh k ch d tr cbs)) \<Longrightarrow>
   map fst (outcomes beh k ch d tr cbs) = cbs"
  by (induction cbs arbitrary: tr) (auto split: if_splits)

lemma outcomes_raise_last:
  "outcomes beh k ch d tr cbs = xs @ (c, Throws) # ys \<Longrightarrow> ys = []"
proof (induction cbs arbitrary: tr xs)
  case Nil
  then show ?case by simp
next
  case (Cons a cbs)
  show ?case
  proof (cases xs)
    case Nil
    then show ?thesis using Cons.prems by (auto split: if_splits)
  next
    case (Cons x xs')
    then show ?thesis using Cons.prems Cons.IH [of _ xs'] by (auto split: if_splits)
  qed
qed

lemma outcomes_behaviour:
  "outcomes beh k ch d tr cbs = xs @ (c, out) # ys \<Longrightarrow>
   out = beh (tr @ map (invocation k ch d) xs) c ch d"
proof (induction cbs arbitrary: tr xs)
  case Nil
  then show ?case by simp
next
  case (Cons a cbs)
  show ?case
  proof (cases xs)
    case Nil
    then show ?thesis using Cons.prems by auto
  next
    case (Cons x xs')
    then have x: "x = (a, beh tr a ch d)" using Cons.prems by simp
    have "outcomes beh k ch d (tr @ [Invoked k a ch d (beh tr a ch d)]) cbs = xs' @ (c, out) # ys"
      using Cons.prems Cons by (auto split: if_splits)
    then have "out = beh ((tr @ [Invoked k a ch d (beh tr a ch d)]) @ map (invocation k ch d) xs') c ch d"
      by (rule Cons.IH)
    then show ?thesis using Cons x by simp
  qed
qed

lemma outcomes_nonempty: "cbs \<noteq> [] \<Longrightarrow> outcomes beh k ch d tr cbs \<noteq> []"
  by (cases cbs) auto

lemma promises_mem: "(c, Promise s) \<in> set cos \<Longrightarrow> (c, s) \<in> set (promises cos)"
  by (induction cos rule: promises.induct) auto


lemma no_failure_iff:
  "Rejects \<notin> set (map snd ps) \<and> Never \<notin> set (map snd ps) \<longleftrightarrow> (\<forall>p \<in> set ps. snd p = Fulfils)"
proof (induction ps)
  case Nil
  show ?case by simp
next
  case (Cons p ps)
  show ?case using Cons.IH by (cases "snd p") auto
qed

lemma await_all_Resolved:
  "await_all ps = Resolved \<longleftrightarrow> (\<forall>p \<in> set ps. snd p = Fulfils)"
proof -
  have "await_all ps = Resolved \<longleftrightarrow> Rejects \<notin> set (map snd ps) \<and> Never \<notin> set (map snd ps)"
    by (simp add: await_all_def)
  then show ?thesis by (simp only: no_failure_iff)
qed

lemma await_all_Rejected: "await_all ps = Rejected \<longleftrightarrow> Rejects \<in> set (map snd ps)"
  by (auto simp: await_all_def)


lemma ev_level_invocation [simp]: "ev_level (invocation k ch d p) = k"
  by (simp add: invocation_def)

lemma invoked_append [simp]: "invoked (xs @ ys) = invoked xs @ invoked ys"
  by (induction xs rule: invoked.induct) auto

lemma invoked_invocations [simp]: "invoked (map (invocation k ch d) cos) = map fst cos"
  by (induction cos) (auto simp: invocation_def)

lemma level_events_append [simp]:
  "level_events j (xs @ ys) = level_events j xs @ level_events j ys"
  by (simp add: level_events_def)

lemma level_events_Awaited [simp]:
  "level_events j (Awaited k ps # es) = (if k = j then Awaited k ps # level_events j es else level_events j es)"
  by (simp add: level_events_def)

lemma level_events_invocations [simp]:
  "level_events j (map (invocation k ch d) cos) = (if j = k then map (invocation k ch d) cos else [])"
  by (induction cos) (auto simp: level_events_def)


lemma dispatched_levels:
  "dispatched beh ch d w k ls h evs r \<Longrightarrow> e \<in> set evs \<Longrightarrow>
   k \<le> ev_level e \<and> ev_level e < k + length ls"
  by (induction rule: dispatched.induct) auto




lemma dispatched_resolved_invoked:
  "dispatched beh ch d w k ls h evs r \<Longrightarrow> r = Resolved \<Longrightarrow>
   invoked evs = concat (map (subscribers w) ls)"
  by (induction rule: dispatched.induct) (auto simp: outcomes_all)

lemma map_split:
  "map f cos = xs @ x # ys \<Longrightarrow>
   \<exists>xs' p ys'. cos = xs' @ p # ys' \<and> f p = x \<and> xs = map f xs' \<and> ys = map f ys'"
proof (induction cos arbitrary: xs)
  case Nil
  then show ?case by simp
next
  case (Cons a cos)
  show ?case
  proof (cases xs)
    case Nil
    then have "f a = x" "map f cos = ys" using Cons.prems by auto
    then have "a # cos = [] @ a # cos \<and> f a = x \<and> xs = map f [] \<and> ys = map f cos"
      using Nil by simp
    then show ?thesis by blast
  next
    case c: (Cons b xs')
    then have "map f cos = xs' @ x # ys" "f a = b" using Cons.prems by auto
    then obtain us p vs where "cos = us @ p # vs" "f p = x" "xs' = map f us" "ys = map f vs"
      using Cons.IH by blast
    then have "a # cos = (a # us) @ p # vs \<and> f p = x \<and> xs = map f (a # us) \<and> ys = map f vs"
      using c \<open>f a = b\<close> by simp
    then show ?thesis by blast
  qed
qed

lemma split_in_rest:
  "as @ b # cs = xs @ e # ys \<Longrightarrow> e \<notin> set as \<Longrightarrow> e \<noteq> b \<Longrightarrow> \<exists>zs. cs = zs @ e # ys"
proof (induction as arbitrary: xs)
  case Nil
  then show ?case by (cases xs) auto
next
  case (Cons a as)
  then show ?case by (cases xs) auto
qed

lemma dispatched_raise_last:
  "dispatched beh ch d w k ls h evs r \<Longrightarrow> evs = xs @ Invoked j c ch' d' Throws # ys \<Longrightarrow>
   ys = [] \<and> r = Rejected"
proof (induction arbitrary: xs rule: dispatched.induct)
  case (d_end k h)
  then show ?case by simp
next
  case (d_skip l k ls h evs r)
  then show ?case by simp
next
  case (d_foreign l k ls h)
  then show ?case by (cases xs) auto
next
  case (d_raise l cos k h ls)
  from map_split [OF d_raise.prems] obtain xs' ys' p where
    p: "cos = xs' @ p # ys'" "invocation k ch d p = Invoked j c ch' d' Throws"
    and y: "ys = map (invocation k ch d) ys'"
    by blast
  have "p = (c, Throws)" using p(2) by (cases p) simp
  then have c: "cos = xs' @ (c, Throws) # ys'" using p(1) by simp
  have "outcomes beh k ch d h (subscribers w l) = xs' @ (c, Throws) # ys'"
    using c d_raise.hyps(2) by simp
  then have "ys' = []" by (rule outcomes_raise_last)
  then show ?case using y by simp
next
  case (d_stop l cos k h r ls)
  have "Invoked j c ch' d' Throws \<in> set (map (invocation k ch d) cos)"
    using d_stop.prems by simp
  then have "Throws \<in> set (map snd cos)" by (force simp: invocation_def)
  then show ?case using d_stop.hyps(3) by simp
next
  case (d_pass l cos k h ls evs r)
  have nt: "Invoked j c ch' d' Throws \<notin> set (map (invocation k ch d) cos)"
    using d_pass.hyps(3) by (force simp: invocation_def)
  from d_pass.prems have
    "map (invocation k ch d) cos @ Awaited k (map fst (promises cos)) # evs
       = xs @ Invoked j c ch' d' Throws # ys" by simp
  then have "\<exists>zs. evs = zs @ Invoked j c ch' d' Throws # ys"
    using nt by (rule split_in_rest) simp
  then obtain zs where "evs = zs @ Invoked j c ch' d' Throws # ys" ..
  then show ?case using d_pass.IH by blast
qed

lemma Invoked_in_invocations:
  "Invoked j c ch' d' out \<in> invocation k ch d ` set cos \<longleftrightarrow>
     j = k \<and> ch' = ch \<and> d' = d \<and> (c, out) \<in> set cos"
  by (induction cos) auto






lemma dispatched_rejected_promise:
  "dispatched beh ch d w k ls h evs r \<Longrightarrow> Invoked j c ch' d' (Promise Rejects) \<in> set evs \<Longrightarrow>
   r = Rejected \<and> list_all (\<lambda>e. ev_level e \<le> j) evs \<and> (\<forall>ps. Awaited j ps \<notin> set evs)"
proof (induction rule: dispatched.induct)
  case (d_end k h)
  then show ?case by simp
next
  case (d_skip l k ls h evs r)
  then show ?case by simp
next
  case (d_foreign l k ls h)
  then show ?case by simp
next
  case (d_raise l cos k h ls)
  then have "j = k" by (simp add: Invoked_in_invocations)
  then show ?case by (auto simp: list_all_iff invocation_def)
next
  case (d_stop l cos k h r ls)
  then have jk: "j = k" and "(c, Promise Rejects) \<in> set cos"
    by (simp_all add: Invoked_in_invocations)
  then have "(c, Rejects) \<in> set (promises cos)" by (simp add: promises_mem)
  then have "Rejects \<in> set (map snd (promises cos))" by force
  then have "await_all (promises cos) = Rejected" by (simp add: await_all_Rejected)
  then show ?case using d_stop.hyps(4) jk by (auto simp: list_all_iff invocation_def)
next
  case (d_pass l cos k h ls evs r)
  have "Invoked j c ch' d' (Promise Rejects) \<notin> set (map (invocation k ch d) cos)"
  proof
    assume "Invoked j c ch' d' (Promise Rejects) \<in> set (map (invocation k ch d) cos)"
    then have "(c, Promise Rejects) \<in> set cos" by (simp add: Invoked_in_invocations)
    then have "(c, Rejects) \<in> set (promises cos)" by (simp add: promises_mem)
    then show False using d_pass.hyps(4) by (auto simp: await_all_Resolved)
  qed
  then have in_rest: "Invoked j c ch' d' (Promise Rejects) \<in> set evs" using d_pass.prems by simp
  then have ih: "r = Rejected" "list_all (\<lambda>e. ev_level e \<le> j) evs" "\<forall>ps. Awaited j ps \<notin> set evs"
    using d_pass.IH by auto
  have "Suc k \<le> j" using dispatched_levels [OF d_pass.hyps(5) in_rest] by simp
  then show ?case using ih by (auto simp: list_all_iff)
qed

lemma split_cases:
  "as @ b # cs = xs @ e # ys \<Longrightarrow>
     (\<exists>ys'. as = xs @ e # ys' \<and> ys = ys' @ b # cs)
   \<or> (as = xs \<and> b = e \<and> cs = ys)
   \<or> (\<exists>zs. xs = as @ b # zs \<and> cs = zs @ e # ys)"
proof (induction as arbitrary: xs)
  case Nil
  then show ?case by (cases xs) auto
next
  case (Cons a as)
  show ?case
  proof (cases xs)
    case Nil
    then show ?thesis using Cons.prems by auto
  next
    case c: (Cons x xs')
    then have "as @ b # cs = xs' @ e # ys" "a = x" using Cons.prems by auto
    from Cons.IH [OF this(1)] show ?thesis using c \<open>a = x\<close> by auto
  qed
qed

lemma dispatched_behaviour:
  "dispatched beh ch d w k ls h evs r \<Longrightarrow> evs = xs @ Invoked j c ch' d' out # ys \<Longrightarrow>
   out = beh (h @ xs) c ch' d'"
proof (induction arbitrary: xs rule: dispatched.induct)
  case (d_end k h)
  then show ?case by simp
next
  case (d_skip l k ls h evs r)
  then show ?case by simp
next
  case (d_foreign l k ls h)
  then show ?case by (cases xs) auto
next
  case (d_raise l cos k h ls)
  from map_split [OF d_raise.prems] obtain xs' p ys' where
    p: "cos = xs' @ p # ys'" "invocation k ch d p = Invoked j c ch' d' out"
       "xs = map (invocation k ch d) xs'" by blast
  have "p = (c, out)" "ch' = ch" "d' = d" using p(2) by (cases p; simp)+
  then show ?case using outcomes_behaviour [of beh k ch d h "subscribers w l" xs' c out ys']
      p(1,3) d_raise.hyps(2) by simp
next
  case (d_stop l cos k h r ls)
  from map_split [OF d_stop.prems] obtain xs' p ys' where
    p: "cos = xs' @ p # ys'" "invocation k ch d p = Invoked j c ch' d' out"
       "xs = map (invocation k ch d) xs'" by blast
  have "p = (c, out)" "ch' = ch" "d' = d" using p(2) by (cases p; simp)+
  then show ?case using outcomes_behaviour [of beh k ch d h "subscribers w l" xs' c out ys']
      p(1,3) d_stop.hyps(2) by simp
next
  case (d_pass l cos k h ls evs r)
  let ?first = "map (invocation k ch d) cos"
  let ?aw = "Awaited k (map fst (promises cos))"
  from d_pass.prems have "?first @ ?aw # evs = xs @ Invoked j c ch' d' out # ys" by simp
  from split_cases [OF this] consider
    (first) ys' where "?first = xs @ Invoked j c ch' d' out # ys'"
    | (rest) zs where "xs = ?first @ ?aw # zs" "evs = zs @ Invoked j c ch' d' out # ys"
    by auto
  then show ?case
  proof cases
    case first
    from map_split [OF first] obtain xs' p ys'' where
      p: "cos = xs' @ p # ys''" "invocation k ch d p = Invoked j c ch' d' out"
         "xs = map (invocation k ch d) xs'" by blast
    have "p = (c, out)" "ch' = ch" "d' = d" using p(2) by (cases p; simp)+
    then show ?thesis using outcomes_behaviour [of beh k ch d h "subscribers w l" xs' c out ys'']
        p(1,3) d_pass.hyps(2) by simp
  next
    case rest
    then show ?thesis using d_pass.IH [OF rest(2)] by simp
  qed
qed



lemma failure_invocation [simp]: "failure (invocation k ch d p) = (\<not> completed (snd p))"
  by (simp add: invocation_def)

lemma rejection_invocation [simp]:
  "rejection (invocation k ch d p) = (snd p = Throws \<or> snd p = Promise Rejects)"
  by (simp add: invocation_def)



lemma earlier_append [simp]: "earlier j (xs @ ys) = earlier j xs @ earlier j ys"
  by (simp add: earlier_def)

lemma earlier_Awaited [simp]:
  "earlier j (Awaited k ps # es) = (if k < j then Awaited k ps # earlier j es else earlier j es)"
  by (simp add: earlier_def)

lemma earlier_NotIterable [simp]:
  "earlier j (NotIterable k # es) = (if k < j then NotIterable k # earlier j es else earlier j es)"
  by (simp add: earlier_def)

lemma earlier_invocations [simp]:
  "earlier j (map (invocation k ch d) cos) = (if k < j then map (invocation k ch d) cos else [])"
  by (induction cos) (auto simp: earlier_def)

lemma earlier_Nil [simp]: "earlier j [] = []"
  by (simp add: earlier_def)

lemma level_events_NotIterable [simp]:
  "level_events j (NotIterable k # es)
     = (if k = j then NotIterable k # level_events j es else level_events j es)"
  by (simp add: level_events_def)

lemma level_events_Nil [simp]: "level_events j [] = []"
  by (simp add: level_events_def)
















section \<open>The queue of deferred closures\<close>

lemma sendLater_eq:
  "sendLater ch d w =
     w\<lparr>ticks := ticks w @ concat (map (\<lambda>(k, l). units_for w ch d k l)
                                   (enumerate 0 (expandChannelsToListeners (sep w) ch)))\<rparr>"
  unfolding sendLater_def by (rule later_each_eq)


lemma units_for_mem:
  assumes "t \<in> set (units_for w ch d k l)"
  shows "t_channel t = ch" "t_data t = d" "t_level t = k" "t_cbs t = lookup w l"
    "captured w t = subscribers w l" "subscribers w l \<noteq> [] \<or> lookup w l = Foreign"
proof -
  have "t_channel t = ch \<and> t_data t = d \<and> t_level t = k \<and> t_cbs t = lookup w l \<and>
        captured w t = subscribers w l \<and> (subscribers w l \<noteq> [] \<or> lookup w l = Foreign)"
    using assms
    by (cases "lookup w l")
      (auto simp: units_for_def captured_def subscribers_lookup split: if_splits)
  then show "t_channel t = ch" "t_data t = d" "t_level t = k" "t_cbs t = lookup w l"
    "captured w t = subscribers w l" "subscribers w l \<noteq> [] \<or> lookup w l = Foreign"
    by simp_all
qed



lemma tick_each_outcomes:
  "tick_each beh k ch d cbs tr =
     (tr @ map (invocation k ch d) (outcomes beh k ch d tr cbs),
      Throws \<notin> set (map snd (outcomes beh k ch d tr cbs)))"
proof (induction cbs arbitrary: tr)
  case Nil
  show ?case by simp
next
  case (Cons c cbs)
  show ?case using Cons.IH by (cases "beh tr c ch d") simp_all
qed

lemma run_each_set:
  assumes "t_cbs t = SetRef a"
  shows "run_each beh (t # ts) w =
     (if Throws \<in> set (map snd (outcomes beh (t_level t) (t_channel t) (t_data t) (trace w)
                                  (sets w a)))
      then w\<lparr>trace := trace w @ map (invocation (t_level t) (t_channel t) (t_data t))
                                   (outcomes beh (t_level t) (t_channel t) (t_data t) (trace w)
                                      (sets w a)),
              ticks := ts\<rparr>
      else run_each beh ts
             (w\<lparr>trace := trace w @ map (invocation (t_level t) (t_channel t) (t_data t))
                                      (outcomes beh (t_level t) (t_channel t) (t_data t)
                                         (trace w) (sets w a))\<rparr>))"
  using assms by (simp add: tick_each_outcomes)

lemma run_each_other:
  assumes "\<And>a. t_cbs t \<noteq> SetRef a"
  shows "run_each beh (t # ts) w
           = w\<lparr>trace := trace w @ [NotIterable (t_level t)], ticks := ts\<rparr>"
proof (cases "t_cbs t")
  case (SetRef a)
  then show ?thesis using assms [of a] by simp
qed simp_all

lemma received_append [simp]: "received (xs @ ys) = received xs @ received ys"
  by (induction xs rule: received.induct) auto

lemma received_invocations [simp]:
  "received (map (invocation k ch d) cos) = map (\<lambda>c. (c, ch, d)) (map fst cos)"
  by (induction cos) (auto simp: invocation_def)

lemma invoked_received: "invoked evs = map fst (received evs)"
  by (induction evs rule: invoked.induct) auto

lemma captured_trace [simp]: "captured (w\<lparr>trace := tr\<rparr>) = captured w"
  by (simp add: captured_def fun_eq_iff split: slot.splits)

lemma captured_ticks [simp]: "captured (w\<lparr>ticks := ts\<rparr>) = captured w"
  by (simp add: captured_def fun_eq_iff split: slot.splits)

lemma tick_calls_trace [simp]: "tick_calls (w\<lparr>trace := tr\<rparr>) = tick_calls w"
  by (simp add: tick_calls_def fun_eq_iff)

lemma tick_calls_ticks [simp]: "tick_calls (w\<lparr>ticks := ts\<rparr>) = tick_calls w"
  by (simp add: tick_calls_def fun_eq_iff)

lemma listener_calls_ticks [simp]: "listener_calls (w\<lparr>ticks := ts\<rparr>) = listener_calls w"
  by (simp add: listener_calls_def fun_eq_iff)

lemma run_each_received:
  "\<exists>evs. trace (run_each beh ts w) = trace w @ evs \<and>
         prefix (received evs) (concat (map (tick_calls w) ts))"
proof (induction ts arbitrary: w)
  case Nil
  show ?case by simp
next
  case (Cons t ts)
  show ?case
  proof (cases "\<exists>a. t_cbs t = SetRef a")
    case False
    then have "run_each beh (t # ts) w
                 = w\<lparr>trace := trace w @ [NotIterable (t_level t)], ticks := ts\<rparr>"
      by (intro run_each_other) simp
    then have "trace (run_each beh (t # ts) w) = trace w @ [NotIterable (t_level t)]" by simp
    moreover have "prefix (received [NotIterable (t_level t)])
                     (concat (map (tick_calls w) (t # ts)))" by simp
    ultimately show ?thesis by blast
  next
    case True
    then obtain a where a: "t_cbs t = SetRef a" ..
    define cos where "cos = outcomes beh (t_level t) (t_channel t) (t_data t) (trace w) (sets w a)"
    define es where "es = map (invocation (t_level t) (t_channel t) (t_data t)) cos"
    have tc: "tick_calls w t = map (\<lambda>c. (c, t_channel t, t_data t)) (sets w a)"
      by (simp add: tick_calls_def captured_def a)
    have pre: "prefix (map fst cos) (sets w a)" unfolding cos_def by (rule outcomes_prefix)
    have res: "received es = map (\<lambda>c. (c, t_channel t, t_data t)) (map fst cos)"
      by (simp add: es_def)
    show ?thesis
    proof (cases "Throws \<in> set (map snd cos)")
      case True
      then have "run_each beh (t # ts) w = w\<lparr>trace := trace w @ es, ticks := ts\<rparr>"
        unfolding run_each_set [OF a] cos_def es_def by simp
      then have "trace (run_each beh (t # ts) w) = trace w @ es" by simp
      moreover have "prefix (received es) (tick_calls w t)"
        unfolding res tc using pre by (rule map_mono_prefix)
      then have "prefix (received es) (concat (map (tick_calls w) (t # ts)))"
        by (simp add: prefix_prefix)
      ultimately show ?thesis by blast
    next
      case False
      let ?w = "w\<lparr>trace := trace w @ es\<rparr>"
      have r: "run_each beh (t # ts) w = run_each beh ts ?w"
        using False unfolding run_each_set [OF a] cos_def es_def by simp
      have all: "map fst cos = sets w a" using False unfolding cos_def by (rule outcomes_all)
      obtain evs where evs: "trace (run_each beh ts ?w) = trace ?w @ evs"
        "prefix (received evs) (concat (map (tick_calls ?w) ts))"
        using Cons.IH [of ?w] by blast
      have "trace (run_each beh (t # ts) w) = trace w @ (es @ evs)" using r evs(1) by simp
      moreover have "prefix (received (es @ evs)) (concat (map (tick_calls w) (t # ts)))"
        using evs(2) by (simp add: res all tc)
      ultimately show ?thesis by blast
    qed
  qed
qed

lemma run_ticks_received:
  "prefix (received (new_events w (run_ticks beh w))) (concat (map (tick_calls w) (ticks w)))"
proof -
  obtain evs where "trace (run_each beh (ticks w) w) = trace w @ evs"
    "prefix (received evs) (concat (map (tick_calls w) (ticks w)))"
    using run_each_received [of beh "ticks w" w] by blast
  then show ?thesis by (simp add: new_events_def run_ticks_def)
qed

lemma run_each_empty_sets:
  "(\<And>t. t \<in> set ts \<Longrightarrow> \<exists>a. t_cbs t = SetRef a \<and> sets w a = []) \<Longrightarrow>
   run_each beh ts w = w\<lparr>ticks := []\<rparr>"
proof (induction ts arbitrary: w)
  case Nil
  show ?case by simp
next
  case (Cons t ts)
  obtain a where a: "t_cbs t = SetRef a" "sets w a = []" using Cons.prems by auto
  have "w\<lparr>trace := trace w\<rparr> = w" by simp
  then show ?case using Cons.IH [of w] Cons.prems a by (simp add: run_each_set [OF a(1)])
qed

lemma queue_ok_new: "queue_ok (Superbus s)"
  by (simp add: queue_ok_def Superbus_def)

lemma queue_ok_trace [simp]: "queue_ok (w\<lparr>trace := tr\<rparr>) = queue_ok w"
  by (simp add: queue_ok_def cong: slot.case_cong)

lemma queue_ok_tick:
  assumes "queue_ok w" "t \<in> set (ticks w)" "t_cbs t = SetRef a"
  shows "a < fresh w" "a \<in> set (map snd (subs w)) \<or> sets w a = []"
  using assms by (auto simp: queue_ok_def list_all_iff)

lemma queue_okI:
  assumes "\<And>t a. t \<in> set (ticks w) \<Longrightarrow> t_cbs t = SetRef a \<Longrightarrow>
             a < fresh w \<and> (a \<in> set (map snd (subs w)) \<or> sets w a = [])"
  shows "queue_ok w"
  unfolding queue_ok_def list_all_iff
proof
  fix t assume "t \<in> set (ticks w)"
  then show "case t_cbs t of
               SetRef a \<Rightarrow> a < fresh w \<and> (a \<in> set (map snd (subs w)) \<or> sets w a = [])
             | _ \<Rightarrow> True"
    using assms [of t] by (cases "t_cbs t") simp_all
qed

lemma queue_ok_added:
  assumes "queue_ok w"
  shows "queue_ok (added ch c w)"
proof (rule queue_okI)
  fix t a assume t: "t \<in> set (ticks (added ch c w))" "t_cbs t = SetRef a"
  have tin: "t \<in> set (ticks w)" using t(1) by (simp add: added_def split: option.splits)
  note q = queue_ok_tick [OF assms tin t(2)]
  show "a < fresh (added ch c w) \<and>
        (a \<in> set (map snd (subs (added ch c w))) \<or> sets (added ch c w) a = [])"
  proof (cases "map_of (subs w) ch")
    case None
    then show ?thesis using q by (auto simp: added_def)
  next
    case (Some b)
    have "b \<in> set (map snd (subs w))" using Some by (rule map_of_addr_in)
    then show ?thesis using q Some by (auto simp: added_def)
  qed
qed

lemma queue_ok_added_each: "queue_ok w \<Longrightarrow> queue_ok (added_each chs c w)"
  by (induction chs arbitrary: w) (simp_all add: queue_ok_added)

lemma queue_ok_removed:
  assumes "well_formed w" "queue_ok w"
  shows "queue_ok (removed ch c w)"
proof (cases "map_of (subs w) ch")
  case None
  then show ?thesis using assms by (simp add: removed_None)
next
  case (Some b)
  have d1: "distinct (map fst (subs w))" using assms(1) by (simp add: well_formed_def)
  have inb: "b \<in> set (map snd (subs w))" using Some by (rule map_of_addr_in)
  show ?thesis
  proof (cases "removeAll c (sets w b) = []")
    case True
    let ?w = "w\<lparr>sets := (sets w)(b := []), subs := AList.delete ch (subs w)\<rparr>"
    have e: "removed ch c w = ?w" using Some True by (simp add: removed_Some)
    have "queue_ok ?w"
    proof (rule queue_okI)
      fix t a assume t: "t \<in> set (ticks ?w)" "t_cbs t = SetRef a"
      then have tin: "t \<in> set (ticks w)" by simp
      note q = queue_ok_tick [OF assms(2) tin t(2)]
      have "a \<in> set (map snd (AList.delete ch (subs w))) \<or> ((sets w)(b := [])) a = []"
      proof (cases "a = b \<or> sets w a = []")
        case True
        then show ?thesis by auto
      next
        case False
        then obtain k where k: "(k, a) \<in> set (subs w)" using q(2) by auto
        then have "map_of (subs w) k = Some a" using d1 by simp
        then have "k \<noteq> ch" using Some False by auto
        then have "(k, a) \<in> set (AList.delete ch (subs w))" using k
          by (auto simp: AList.delete_eq)
        then show ?thesis by force
      qed
      then show "a < fresh ?w \<and> (a \<in> set (map snd (subs ?w)) \<or> sets ?w a = [])"
        using q(1) by simp
    qed
    then show ?thesis by (simp add: e)
  next
    case False
    let ?w = "w\<lparr>sets := (sets w)(b := removeAll c (sets w b))\<rparr>"
    have e: "removed ch c w = ?w" using Some False by (simp add: removed_Some)
    have "queue_ok ?w"
    proof (rule queue_okI)
      fix t a assume t: "t \<in> set (ticks ?w)" "t_cbs t = SetRef a"
      then have tin: "t \<in> set (ticks w)" by simp
      note q = queue_ok_tick [OF assms(2) tin t(2)]
      show "a < fresh ?w \<and> (a \<in> set (map snd (subs ?w)) \<or> sets ?w a = [])"
        using q inb by auto
    qed
    then show ?thesis by (simp add: e)
  qed
qed

lemma queue_ok_removed_each:
  "well_formed w \<Longrightarrow> queue_ok w \<Longrightarrow> queue_ok (removed_each chs c w)"
  by (induction chs arbitrary: w)
    (simp_all add: queue_ok_removed well_formed_removed)

lemma removeAll_clears_queue:
  assumes "queue_ok w" "t \<in> set (ticks (removeAllSubscriptions w))"
  shows "captured (removeAllSubscriptions w) t = []"
proof (cases "t_cbs t")
  case (SetRef a)
  have tin: "t \<in> set (ticks w)" using assms(2) by (simp add: removeAllSubscriptions_def)
  have "a \<in> set (map snd (subs w)) \<or> sets w a = []"
    using queue_ok_tick(2) [OF assms(1) tin SetRef] .
  then show ?thesis using SetRef
    by (auto simp: captured_def removeAllSubscriptions_def clear_sets_apply)
qed (simp_all add: captured_def)

lemma queue_ok_removeAll:
  assumes "queue_ok w"
  shows "queue_ok (removeAllSubscriptions w)"
proof (rule queue_okI)
  fix t a assume t: "t \<in> set (ticks (removeAllSubscriptions w))" "t_cbs t = SetRef a"
  have tin: "t \<in> set (ticks w)" using t(1) by (simp add: removeAllSubscriptions_def)
  have "a < fresh w" using queue_ok_tick(1) [OF assms tin t(2)] .
  moreover have "sets (removeAllSubscriptions w) a = []"
    using removeAll_clears_queue [OF assms t(1)] t(2) by (simp add: captured_def)
  ultimately show "a < fresh (removeAllSubscriptions w) \<and>
        (a \<in> set (map snd (subs (removeAllSubscriptions w)))
         \<or> sets (removeAllSubscriptions w) a = [])"
    by (simp add: removeAllSubscriptions_def)
qed

lemma queue_ok_sendLater:
  assumes "well_formed w" "queue_ok w"
  shows "queue_ok (sendLater ch d w)"
proof (rule queue_okI)
  fix t a assume t: "t \<in> set (ticks (sendLater ch d w))" "t_cbs t = SetRef a"
  have "t \<in> set (ticks w) \<or> (\<exists>k l. t \<in> set (units_for w ch d k l))"
    using t(1) by (auto simp: sendLater_eq)
  then have "a < fresh w \<and> (a \<in> set (map snd (subs w)) \<or> sets w a = [])"
  proof
    assume "t \<in> set (ticks w)"
    then show ?thesis using queue_ok_tick [OF assms(2) _ t(2)] by simp
  next
    assume "\<exists>k l. t \<in> set (units_for w ch d k l)"
    then obtain k l where m: "t \<in> set (units_for w ch d k l)" by blast
    have "lookup w l = SetRef a" using units_for_mem(4) [OF m] t(2) by simp
    then have s: "map_of (subs w) l = Some a" by (simp add: lookup_SetRef)
    show ?thesis using well_formed_lookup(1) [OF assms(1) s] map_of_addr_in [OF s] by simp
  qed
  then show "a < fresh (sendLater ch d w) \<and>
        (a \<in> set (map snd (subs (sendLater ch d w))) \<or> sets (sendLater ch d w) a = [])"
    by (simp add: sendLater_eq)
qed

lemma run_each_ticks: "set (ticks (run_each beh ts w)) \<subseteq> set ts"
proof (induction ts arbitrary: w)
  case Nil
  show ?case by simp
next
  case (Cons t ts)
  show ?case
  proof (cases "\<exists>a. t_cbs t = SetRef a")
    case False
    then have "run_each beh (t # ts) w
                 = w\<lparr>trace := trace w @ [NotIterable (t_level t)], ticks := ts\<rparr>"
      by (intro run_each_other) simp
    then show ?thesis by auto
  next
    case True
    then obtain a where a: "t_cbs t = SetRef a" ..
    show ?thesis
    proof (cases "Throws \<in> set (map snd (outcomes beh (t_level t) (t_channel t) (t_data t)
                                            (trace w) (sets w a)))")
      case True
      then show ?thesis unfolding run_each_set [OF a] by auto
    next
      case False
      then show ?thesis unfolding run_each_set [OF a] using Cons.IH by auto
    qed
  qed
qed

lemma queue_ok_run_ticks:
  assumes "queue_ok w"
  shows "queue_ok (run_ticks beh w)"
proof -
  obtain tr ts where e: "run_ticks beh w = w\<lparr>trace := tr, ticks := ts\<rparr>"
    using run_ticks_state [of beh w] by blast
  have "set (ticks (run_ticks beh w)) \<subseteq> set (ticks w)"
    unfolding run_ticks_def by (rule run_each_ticks)
  then have sub: "set ts \<subseteq> set (ticks w)" using e by simp
  have "queue_ok (w\<lparr>trace := tr, ticks := ts\<rparr>)"
  proof (rule queue_okI)
    fix t a assume t: "t \<in> set (ticks (w\<lparr>trace := tr, ticks := ts\<rparr>))" "t_cbs t = SetRef a"
    then have tin: "t \<in> set (ticks w)" using sub by auto
    show "a < fresh (w\<lparr>trace := tr, ticks := ts\<rparr>) \<and>
          (a \<in> set (map snd (subs (w\<lparr>trace := tr, ticks := ts\<rparr>)))
           \<or> sets (w\<lparr>trace := tr, ticks := ts\<rparr>) a = [])"
      using queue_ok_tick [OF assms tin t(2)] by simp
  qed
  then show ?thesis by (simp add: e)
qed

lemma reachable_queue_ok: "reachable beh w \<Longrightarrow> queue_ok w"
proof (induction rule: reachable.induct)
  case (r_new s)
  show ?case by (rule queue_ok_new)
next
  case (r_on w channelInput callback)
  then show ?case by (simp add: snd_on queue_ok_added_each reachable_well_formed)
next
  case (r_unsub w h)
  then show ?case by (simp add: snd_unsub queue_ok_removed_each reachable_well_formed)
next
  case (r_removeAll w)
  then show ?case by (simp add: queue_ok_removeAll)
next
  case (r_sendAndWait w channel data)
  obtain tr where "snd (sendAndWait beh channel data w) = w\<lparr>trace := tr\<rparr>"
    using sendAndWait_state [of beh channel data w] by blast
  then show ?case using r_sendAndWait.IH by simp
next
  case (r_sendLater w channel data)
  then show ?case by (simp add: queue_ok_sendLater reachable_well_formed)
next
  case (r_ticks w)
  then show ?case by (simp add: queue_ok_run_ticks)
qed

lemma no_calls_no_invoked:
  assumes "\<And>t. t \<in> set (ticks w) \<Longrightarrow> captured w t = []"
  shows "invoked (new_events w (run_ticks beh w)) = []"
proof -
  have "tick_calls w t = []" if "t \<in> set (ticks w)" for t
    using assms [OF that] by (simp add: tick_calls_def)
  then have "concat (map (tick_calls w) (ticks w)) = []" by (induction "ticks w") auto
  then have "prefix (received (new_events w (run_ticks beh w))) []"
    using run_ticks_received [of w beh] by (simp only:)
  then have "received (new_events w (run_ticks beh w)) = []" by simp
  then show ?thesis by (simp add: invoked_received)
qed

lemma removeAll_then_run:
  assumes "reachable beh w"
  shows "invoked (new_events (removeAllSubscriptions w) (run_ticks beh (removeAllSubscriptions w)))
           = []"
proof (rule no_calls_no_invoked)
  fix t assume "t \<in> set (ticks (removeAllSubscriptions w))"
  then show "captured (removeAllSubscriptions w) t = []"
    using removeAll_clears_queue [OF reachable_queue_ok [OF assms]] by blast
qed

lemma removeAll_then_run_all:
  assumes "reachable beh w"
    "list_all (\<lambda>t. t_cbs t \<noteq> Foreign \<and> t_cbs t \<noteq> Undefined) (ticks (removeAllSubscriptions w))"
  shows "run_ticks beh (removeAllSubscriptions w) = (removeAllSubscriptions w)\<lparr>ticks := []\<rparr>"
  unfolding run_ticks_def
proof (rule run_each_empty_sets)
  fix t assume t: "t \<in> set (ticks (removeAllSubscriptions w))"
  then have "t_cbs t \<noteq> Foreign" "t_cbs t \<noteq> Undefined"
    using assms(2) by (auto simp: list_all_iff)
  then obtain a where a: "t_cbs t = SetRef a" by (cases "t_cbs t") auto
  have "captured (removeAllSubscriptions w) t = []"
    using removeAll_clears_queue [OF reachable_queue_ok [OF assms(1)] t] .
  then show "\<exists>a. t_cbs t = SetRef a \<and> sets (removeAllSubscriptions w) a = []"
    using a by (simp add: captured_def)
qed




section \<open>Subscribing, sending and removing: the main results\<close>

lemma reachable_new_bus: "reachable beh new_bus"
  unfolding new_bus_def by (rule reachable.r_new)

lemma reachable_open_bus: "reachable beh open_bus"
  unfolding open_bus_def using reachable_new_bus by (rule reachable.r_on)

lemma reachable_open_close_bus: "reachable beh open_close_bus"
  unfolding open_close_bus_def using reachable_open_bus by (rule reachable.r_on)

lemma reachable_star_bus: "reachable beh star_bus"
  unfolding star_bus_def by (intro reachable.r_on reachable_new_bus)



lemma reachable_ids_bus: "reachable beh ids_bus"
  unfolding ids_bus_def by (intro reachable.r_on reachable_new_bus)

text \<open>
  Claim C9. In every state a bus reaches (by subscribing, also where \<open>on\<close> raises part of
  the way, by unsubscribe functions, by \<open>removeAllSubscriptions\<close>, by sending), no channel
  of the registry maps to an empty set.
\<close>

theorem registry_never_holds_empty:
  "reachable beh w \<Longrightarrow> registry w channel \<noteq> Some []"
  using reachable_well_formed registry_nonempty by blast

theorem registry_never_holds_empty_witness:
  "reachable quiet (snd (unsub open_close_handle open_close_bus))
   \<and> registry (snd (unsub open_close_handle open_close_bus)) ''open'' = Some [5]
   \<and> registry (snd (unsub open_close_handle open_close_bus)) ''close'' = None
   \<and> registry (snd (unsub open_close_handle open_close_bus)) ''open'' \<noteq> Some []
   \<and> registry (snd (unsub open_close_handle open_close_bus)) ''close'' \<noteq> Some []
   \<and> fst (on (Many [''open'', ''toString'', ''close'']) 7 open_bus) = Inl TypeError
   \<and> reachable quiet (snd (on (Many [''open'', ''toString'', ''close'']) 7 open_bus))
   \<and> registry (snd (on (Many [''open'', ''toString'', ''close'']) 7 open_bus)) ''open''
       = Some [5, 7]
   \<and> registry (snd (on (Many [''open'', ''toString'', ''close'']) 7 open_bus)) ''toString''
       \<noteq> Some []"
proof -
  have r: "reachable quiet (snd (unsub open_close_handle open_close_bus))"
    using reachable_open_close_bus by (rule reachable.r_unsub)
  have r': "reachable quiet (snd (on (Many [''open'', ''toString'', ''close'']) 7 open_bus))"
    using reachable_open_bus by (rule reachable.r_on)
  have "registry (snd (unsub open_close_handle open_close_bus)) ''open'' = Some [5]"
    "registry (snd (unsub open_close_handle open_close_bus)) ''close'' = None"
    "fst (on (Many [''open'', ''toString'', ''close'']) 7 open_bus) = Inl TypeError"
    "registry (snd (on (Many [''open'', ''toString'', ''close'']) 7 open_bus)) ''open''
       = Some [5, 7]"
    by code_simp+
  then show ?thesis
    using r r' registry_never_holds_empty [OF r, of "''open''"]
      registry_never_holds_empty [OF r, of "''close''"]
      registry_never_holds_empty [OF r', of "''toString''"]
    by simp
qed

text \<open>
  Claim C6. The unsubscribe function returned by \<open>on(channels, callback)\<close>, called in any
  state the bus has reached, does not raise, takes the callback out of the channels given to
  that call of \<open>on\<close> and leaves every other channel as it was; called a second time it
  changes nothing.
\<close>

theorem unsub_round_trip:
  assumes "reachable beh w0" "fst (on channelInput callback w0) = Inr h" "reachable beh w"
  shows "fst (unsub h w) = None
       \<and> registry (snd (unsub h w)) channel =
           (if channel \<in> set (channels_of channelInput)
            then without callback (registry w channel)
            else registry w channel)
       \<and> unsub h (snd (unsub h w)) = (None, snd (unsub h w))"
proof -
  have wf0: "well_formed w0" using assms(1) by (rule reachable_well_formed)
  have wf: "well_formed w" using assms(3) by (rule reachable_well_formed)
  have h: "h = \<lparr>h_channels = channels_of channelInput, h_callback = callback\<rparr>"
    using wf0 assms(2) by (rule on_returns)
  have ni: "list_all (\<lambda>ch. \<not> inherited ch) (h_channels h)"
    using on_returns(2) [OF wf0 assms(2)] h by simp
  have e: "unsub h w = (None, removed_each (h_channels h) (h_callback h) w)"
    using wf ni by (rule unsub_eq)
  have "registry (removed_each (h_channels h) (h_callback h) w) channel =
           (if channel \<in> set (channels_of channelInput)
            then without callback (registry w channel)
            else registry w channel)"
    using wf by (simp add: h registry_removed_each)
  moreover have "unsub h (snd (unsub h w)) = (None, snd (unsub h w))"
    using wf ni by (rule unsub_twice)
  ultimately show ?thesis by (simp add: e)
qed

theorem unsub_round_trip_witness:
  "reachable quiet open_bus
   \<and> fst (on (Many [''open'', ''close'']) 6 open_bus) = Inr open_close_handle
   \<and> reachable quiet open_close_bus
   \<and> registry open_close_bus ''open'' = Some [5, 6]
   \<and> registry open_close_bus ''close'' = Some [6]
   \<and> fst (unsub open_close_handle open_close_bus) = None
   \<and> registry (snd (unsub open_close_handle open_close_bus)) ''open'' = Some [5]
   \<and> registry (snd (unsub open_close_handle open_close_bus)) ''close'' = None
   \<and> registry (snd (unsub open_close_handle open_close_bus)) ''other''
       = registry open_close_bus ''other''
   \<and> unsub open_close_handle (snd (unsub open_close_handle open_close_bus))
       = (None, snd (unsub open_close_handle open_close_bus))"
proof -
  have r0: "reachable quiet open_bus" by (rule reachable_open_bus)
  have r: "reachable quiet open_close_bus" by (rule reachable_open_close_bus)
  have o: "fst (on (Many [''open'', ''close'']) 6 open_bus) = Inr open_close_handle"
    by code_simp
  have a: "registry open_close_bus ''open'' = Some [5, 6]"
    "registry open_close_bus ''close'' = Some [6]"
    by code_simp+
  have b: "without 6 (Some [5, 6]) = Some [5]" "without 6 (Some [6]) = None"
    by code_simp+
  show ?thesis
    using r0 r o a b
      unsub_round_trip [OF r0 o r, of "''open''"]
      unsub_round_trip [OF r0 o r, of "''close''"]
      unsub_round_trip [OF r0 o r, of "''other''"]
    by (simp add: channels_of_def)
qed

lemma sep_added_each [simp]: "sep (added_each chs c w) = sep w"
  by (induction chs arbitrary: w) (simp_all add: added_def split: option.splits)

lemma sep_removed_each [simp]: "sep (removed_each chs c w) = sep w"
  by (induction chs arbitrary: w)
    (simp_all add: removed_def Let_def split: option.splits)

lemma sep_removeAll [simp]: "sep (removeAllSubscriptions w) = sep w"
  by (simp add: removeAllSubscriptions_def)


lemma subscribers_added_each:
  "well_formed w \<Longrightarrow> list_all (\<lambda>ch. \<not> inherited ch) chs \<Longrightarrow>
   subscribers (added_each chs c w) l =
     (if l \<in> set chs then set_add c (subscribers w l) else subscribers w l)"
  by (simp add: subscribers_def registry_added_each)

lemma subscribers_removed_each:
  "well_formed w \<Longrightarrow>
   subscribers (removed_each chs c w) l =
     (if l \<in> set chs then set_delete c (subscribers w l) else subscribers w l)"
  by (auto simp: subscribers_def registry_removed_each without_def set_delete_def
      split: option.splits)

lemma sendAndWait_shape:
  "dispatched beh channel data w 0 (expandChannelsToListeners (sep w) channel) (trace w)
     (new_events w (snd (sendAndWait beh channel data w))) (fst (sendAndWait beh channel data w))"
  by (rule conjunct2 [OF sendAndWait_dispatched])

lemma sendAndWait_resolved_invokes:
  assumes "fst (sendAndWait beh channel data w) = Resolved"
    "l \<in> set (expandChannelsToListeners (sep w) channel)" "c \<in> set (subscribers w l)"
  shows "c \<in> set (invoked (new_events w (snd (sendAndWait beh channel data w))))"
proof -
  have "invoked (new_events w (snd (sendAndWait beh channel data w)))
               = concat (map (subscribers w) (expandChannelsToListeners (sep w) channel))"
    using sendAndWait_shape assms(1) by (rule dispatched_resolved_invoked)
  then show ?thesis using assms(2,3) by auto
qed

text \<open>
  Claim C7, as the code has it. A set holds a callback once, however often it was subscribed:
  the unsubscribe function of one call of \<open>on\<close> takes the callback out of every channel of
  that call, also where a separate call had subscribed it. After two separate calls for the
  same callback, destroying one subscription leaves the callback registered on the
  channels of the other call that were not given to the destroyed one; a message that
  reaches such a channel, in a dispatch that is fulfilled, is delivered to the callback.
  Neither unsubscribe function raises.
\<close>

theorem separate_subscriptions:
  assumes "reachable beh w0" "fst (on i1 c w0) = Inr h1"
    "fst (on i2 c (snd (on i1 c w0))) = Inr h2"
  shows "(l \<in> set (channels_of i1) \<longrightarrow>
            c \<notin> set (subscribers (snd (unsub h1 (snd (on i2 c (snd (on i1 c w0)))))) l))
       \<and> (l \<in> set (channels_of i2) \<and> l \<notin> set (channels_of i1) \<longrightarrow>
            c \<in> set (subscribers (snd (unsub h1 (snd (on i2 c (snd (on i1 c w0)))))) l))
       \<and> (l \<in> set (channels_of i1) \<and> l \<notin> set (channels_of i2) \<longrightarrow>
            c \<in> set (subscribers (snd (unsub h2 (snd (on i2 c (snd (on i1 c w0)))))) l))
       \<and> (l \<in> set (channels_of i2) \<and> l \<notin> set (channels_of i1) \<and>
          l \<in> set (expandChannelsToListeners (sep w0) channel) \<and>
          fst (sendAndWait beh channel data
                 (snd (unsub h1 (snd (on i2 c (snd (on i1 c w0))))))) = Resolved \<longrightarrow>
            c \<in> set (invoked
                       (new_events (snd (unsub h1 (snd (on i2 c (snd (on i1 c w0))))))
                          (snd (sendAndWait beh channel data
                                 (snd (unsub h1 (snd (on i2 c (snd (on i1 c w0)))))))))))
       \<and> fst (unsub h1 (snd (on i2 c (snd (on i1 c w0))))) = None
       \<and> fst (unsub h2 (snd (on i2 c (snd (on i1 c w0))))) = None"
proof -
  let ?w1 = "snd (on i1 c w0)"
  let ?w2 = "snd (on i2 c ?w1)"
  let ?u1 = "snd (unsub h1 ?w2)"
  let ?u2 = "snd (unsub h2 ?w2)"
  have wf0: "well_formed w0" using assms(1) by (rule reachable_well_formed)
  have r1: "reachable beh ?w1" using assms(1) by (rule reachable.r_on)
  have wf1: "well_formed ?w1" using r1 by (rule reachable_well_formed)
  have r2: "reachable beh ?w2" using r1 by (rule reachable.r_on)
  have wf2: "well_formed ?w2" using r2 by (rule reachable_well_formed)
  note o1 = on_returns [OF wf0 assms(2)]
  note o2 = on_returns [OF wf1 assms(3)]
  have n1: "list_all (\<lambda>ch. \<not> inherited ch) (h_channels h1)" using o1(1,2) by simp
  have n2: "list_all (\<lambda>ch. \<not> inherited ch) (h_channels h2)" using o2(1,2) by simp
  have e1: "unsub h1 ?w2 = (None, removed_each (channels_of i1) c ?w2)"
    using unsub_eq [OF wf2 n1] o1(1) by simp
  have e2: "unsub h2 ?w2 = (None, removed_each (channels_of i2) c ?w2)"
    using unsub_eq [OF wf2 n2] o2(1) by simp
  have s1: "subscribers ?w1 x =
      (if x \<in> set (channels_of i1) then set_add c (subscribers w0 x) else subscribers w0 x)" for x
    unfolding o1(3) using wf0 o1(2) by (rule subscribers_added_each)
  have s2': "subscribers ?w2 x =
      (if x \<in> set (channels_of i2) then set_add c (subscribers ?w1 x) else subscribers ?w1 x)"
    for x
    unfolding o2(3) using wf1 o2(2) by (rule subscribers_added_each)
  have s2: "subscribers ?w2 x =
      (if x \<in> set (channels_of i1) \<union> set (channels_of i2) then set_add c (subscribers w0 x)
       else subscribers w0 x)" for x
    by (simp add: s2' s1 set_add_idem)
  have u1: "subscribers ?u1 x =
      (if x \<in> set (channels_of i1) then set_delete c (subscribers ?w2 x) else subscribers ?w2 x)"
    for x
    using wf2 by (simp add: e1 subscribers_removed_each)
  have u2: "subscribers ?u2 x =
      (if x \<in> set (channels_of i2) then set_delete c (subscribers ?w2 x) else subscribers ?w2 x)"
    for x
    using wf2 by (simp add: e2 subscribers_removed_each)
  have a: "l \<in> set (channels_of i1) \<longrightarrow> c \<notin> set (subscribers ?u1 l)"
    by (simp add: u1 set_delete_def)
  have b: "l \<in> set (channels_of i2) \<and> l \<notin> set (channels_of i1) \<longrightarrow> c \<in> set (subscribers ?u1 l)"
    by (simp add: u1 s2 set_add_def)
  have c: "l \<in> set (channels_of i1) \<and> l \<notin> set (channels_of i2) \<longrightarrow> c \<in> set (subscribers ?u2 l)"
    by (simp add: u2 s2 set_add_def)
  have "sep ?u1 = sep ?w2" by (simp add: e1)
  also have "\<dots> = sep ?w1" by (simp add: o2(3))
  also have "\<dots> = sep w0" by (simp add: o1(3))
  finally have sp: "sep ?u1 = sep w0" .
  have d: "l \<in> set (channels_of i2) \<and> l \<notin> set (channels_of i1) \<and>
          l \<in> set (expandChannelsToListeners (sep w0) channel) \<and>
          fst (sendAndWait beh channel data ?u1) = Resolved \<longrightarrow>
            c \<in> set (invoked (new_events ?u1 (snd (sendAndWait beh channel data ?u1))))"
    using b sendAndWait_resolved_invokes [of beh channel data ?u1 l c] sp by simp
  have f1: "fst (unsub h1 ?w2) = None" by (simp add: e1)
  have f2: "fst (unsub h2 ?w2) = None" by (simp add: e2)
  show ?thesis
    apply (intro conjI)
         apply (rule a)
        apply (rule b)
       apply (rule c)
      apply (rule d)
     apply (rule f1)
    apply (rule f2)
    done
qed

theorem separate_subscriptions_counterexample:
  "fst (on (One ''open'') 7 new_bus) = Inr first_handle
   \<and> subscribers once_bus ''open'' = [7]
   \<and> subscribers twice_bus ''open'' = [7]
   \<and> subscribers (snd (unsub first_handle twice_bus)) ''open'' = []
   \<and> expandChannelsToListeners (sep (snd (unsub first_handle twice_bus))) ''open''
       = [''open'', ''*'']
   \<and> fst (sendAndWait quiet ''open'' () (snd (unsub first_handle twice_bus))) = Resolved
   \<and> invoked (trace (snd (sendAndWait quiet ''open'' () (snd (unsub first_handle twice_bus)))))
       = []
   \<and> fst (on (One ''close'') 7 (snd (on (One ''open'') 1 new_bus))) = Inr close_handle
   \<and> subscribers guarded_bus ''open'' = [1, 7] \<and> subscribers guarded_bus ''close'' = [7]
   \<and> subscribers (snd (unsub close_handle guarded_bus)) ''open'' = [1, 7]
   \<and> invoked (trace (snd (sendAndWait moody ''open'' () (snd (unsub close_handle guarded_bus)))))
       = [1]"
  by code_simp

theorem separate_subscriptions_witness:
  "reachable quiet new_bus
   \<and> fst (on (One ''open'') 6 new_bus) = Inr open_handle
   \<and> fst (on (Many [''open'', ''close'']) 6 (snd (on (One ''open'') 6 new_bus)))
       = Inr open_close_handle
   \<and> ''open'' \<in> set (channels_of (One ''open''))
   \<and> 6 \<notin> set (subscribers (snd (unsub open_handle apart_bus)) ''open'')
   \<and> ''close'' \<in> set (channels_of (Many [''open'', ''close'']))
   \<and> ''close'' \<notin> set (channels_of (One ''open''))
   \<and> 6 \<in> set (subscribers (snd (unsub open_handle apart_bus)) ''close'')
   \<and> fst (on (Many [''open'', ''close'']) 6 new_bus) = Inr open_close_handle
   \<and> fst (on (One ''open'') 6 (snd (on (Many [''open'', ''close'']) 6 new_bus)))
       = Inr open_handle
   \<and> 6 \<in> set (subscribers (snd (unsub open_handle apart_bus')) ''close'')
   \<and> ''close'' \<in> set (expandChannelsToListeners (sep new_bus) ''close'')
   \<and> fst (sendAndWait quiet ''close'' () (snd (unsub open_handle apart_bus))) = Resolved
   \<and> 6 \<in> set (invoked
               (new_events (snd (unsub open_handle apart_bus))
                  (snd (sendAndWait quiet ''close'' () (snd (unsub open_handle apart_bus))))))
   \<and> fst (unsub open_handle apart_bus) = None"
proof -
  have r: "reachable quiet new_bus" by (rule reachable_new_bus)
  have o: "fst (on (One ''open'') 6 new_bus) = Inr open_handle"
    "fst (on (Many [''open'', ''close'']) 6 (snd (on (One ''open'') 6 new_bus)))
       = Inr open_close_handle"
    "fst (on (Many [''open'', ''close'']) 6 new_bus) = Inr open_close_handle"
    "fst (on (One ''open'') 6 (snd (on (Many [''open'', ''close'']) 6 new_bus)))
       = Inr open_handle"
    by code_simp+
  have a: "''close'' \<in> set (channels_of (Many [''open'', ''close'']))"
    "''close'' \<notin> set (channels_of (One ''open''))"
    "''close'' \<in> set (expandChannelsToListeners (sep new_bus) ''close'')"
    "fst (sendAndWait quiet ''close'' () (snd (unsub open_handle apart_bus))) = Resolved"
    "''open'' \<in> set (channels_of (One ''open''))"
    by code_simp+
  note t = separate_subscriptions [OF r o(1) o(2), of "''close''" "''close''" "()",
      folded apart_bus_def]
  note t' = separate_subscriptions [OF r o(1) o(2), of "''open''" "''close''" "()",
      folded apart_bus_def]
  note t'' = separate_subscriptions [OF r o(3) o(4), of "''close''" "''close''" "()",
      folded apart_bus'_def]
  have d: "6 \<notin> set (subscribers (snd (unsub open_handle apart_bus)) ''open'')"
    using conjunct1 [OF t'] a(5) by blast
  have b: "6 \<in> set (subscribers (snd (unsub open_handle apart_bus)) ''close'')"
    using conjunct1 [OF conjunct2 [OF t]] a(1,2) by blast
  have e: "6 \<in> set (subscribers (snd (unsub open_handle apart_bus')) ''close'')"
    using conjunct1 [OF conjunct2 [OF conjunct2 [OF t'']]] a(1,2) by blast
  have c: "6 \<in> set (invoked
               (new_events (snd (unsub open_handle apart_bus))
                  (snd (sendAndWait quiet ''close'' () (snd (unsub open_handle apart_bus))))))"
    using conjunct1 [OF conjunct2 [OF conjunct2 [OF conjunct2 [OF t]]]] a(1,2,3,4) by blast
  have f: "fst (unsub open_handle apart_bus) = None"
    by (rule conjunct1 [OF conjunct2 [OF conjunct2 [OF conjunct2 [OF conjunct2 [OF t]]]]])
  show ?thesis
    apply (intro conjI)
                  apply (rule r)
                 apply (rule o(1))
                apply (rule o(2))
               apply (rule a(5))
              apply (rule d)
             apply (rule a(1))
            apply (rule a(2))
           apply (rule b)
          apply (rule o(3))
         apply (rule o(4))
        apply (rule e)
       apply (rule a(3))
      apply (rule a(4))
     apply (rule c)
    apply (rule f)
    done
qed



text \<open>
  Claim C8. In \<open>sendAndWait\<close> every observed call records what the behaviour of the callback
  did at that moment. A call that raises is the last thing observed and the dispatch is
  rejected: no further callback of that listener and no later listener is reached. When a
  promise collected for a listener is rejected, the dispatch is rejected whatever the other
  promises of that listener do, the wait of that listener is never passed, and no later
  listener is reached.
\<close>

theorem sendAndWait_fail_fast:
  fixes beh :: "'d behaviour" and w :: "'d superbus" and channel :: string and data :: 'd
  defines "r \<equiv> fst (sendAndWait beh channel data w)"
    and "evs \<equiv> new_events w (snd (sendAndWait beh channel data w))"
  shows "(evs = xs @ Invoked k c ch' d' out # ys \<longrightarrow> out = beh (trace w @ xs) c ch' d')
       \<and> (evs = xs @ Invoked k c ch' d' Throws # ys \<longrightarrow> ys = [] \<and> r = Rejected)
       \<and> (Invoked k c ch' d' (Promise Rejects) \<in> set evs \<longrightarrow>
            r = Rejected \<and> list_all (\<lambda>e. ev_level e \<le> k) evs \<and> (\<forall>ps. Awaited k ps \<notin> set evs))"
proof -
  have d: "dispatched beh channel data w 0 (expandChannelsToListeners (sep w) channel) (trace w)
             evs r"
    unfolding r_def evs_def by (rule sendAndWait_shape)
  show ?thesis
    using dispatched_behaviour [OF d] dispatched_raise_last [OF d]
      dispatched_rejected_promise [OF d]
    by blast
qed

theorem sendAndWait_fail_fast_witness:
  "subscribers star_bus ''*'' = [1, 6]
   \<and> new_events star_bus (snd (sendAndWait moody ''*'' () star_bus))
       = [] @ Invoked 0 1 ''*'' () Throws # []
   \<and> Throws = moody (trace star_bus @ []) 1 ''*'' ()
   \<and> fst (sendAndWait moody ''*'' () star_bus) = Rejected
   \<and> subscribers reject_bus ''open'' = [2, 4] \<and> subscribers reject_bus ''*'' = [6]
   \<and> new_events reject_bus (snd (sendAndWait moody ''open'' () reject_bus))
       = [Invoked 0 2 ''open'' () (Promise Rejects), Invoked 0 4 ''open'' () (Promise Never)]
   \<and> fst (sendAndWait moody ''open'' () reject_bus) = Rejected
   \<and> list_all (\<lambda>e. ev_level e \<le> 0)
        (new_events reject_bus (snd (sendAndWait moody ''open'' () reject_bus)))"
proof -
  have a: "subscribers star_bus ''*'' = [1, 6]"
    "new_events star_bus (snd (sendAndWait moody ''*'' () star_bus))
       = [] @ Invoked 0 1 ''*'' () Throws # []"
    "subscribers reject_bus ''open'' = [2, 4]" "subscribers reject_bus ''*'' = [6]"
    "new_events reject_bus (snd (sendAndWait moody ''open'' () reject_bus))
       = [Invoked 0 2 ''open'' () (Promise Rejects), Invoked 0 4 ''open'' () (Promise Never)]"
    by code_simp+
  have b: "Invoked 0 2 ''open'' () (Promise Rejects)
             \<in> set (new_events reject_bus (snd (sendAndWait moody ''open'' () reject_bus)))"
    unfolding a by simp
  show ?thesis
    using a b
      sendAndWait_fail_fast [where beh = moody and w = star_bus and channel = "''*''"
          and data = "()" and xs = "[]" and k = 0 and c = 1 and ch' = "''*''" and d' = "()"
          and out = Throws and ys = "[]"]
      sendAndWait_fail_fast [where beh = moody and w = reject_bus and channel = "''open''"
          and data = "()" and xs = "[]" and k = 0 and c = 2 and ch' = "''open''" and d' = "()"
          and out = Throws and ys = "[]"]
    by simp
qed














lemma sendLater_ticks:
  "ticks (sendLater channel data w)
     = ticks w @ concat (map (\<lambda>(k, l). units_for w channel data k l)
                          (enumerate 0 (expandChannelsToListeners (sep w) channel)))"
  by (simp add: sendLater_eq)












lemma subscribers_removeAll: "subscribers (removeAllSubscriptions w) l = []"
  by (simp add: subscribers_def registry_removeAll)

lemma lookup_removeAll:
  "lookup (removeAllSubscriptions w) l = (if inherited l then Foreign else Undefined)"
  by (simp add: lookup_def removeAllSubscriptions_def)

lemma units_for_ordinary_none:
  "(\<And>l. l \<in> set ls \<Longrightarrow> \<not> inherited l) \<Longrightarrow>
   concat (map (\<lambda>(k, l). units_for (removeAllSubscriptions w) ch d k l) (enumerate n ls)) = []"
  by (induction ls arbitrary: n) (simp_all add: units_for_def lookup_removeAll)

lemma sendLater_after_removeAll:
  assumes "reachable beh w"
  shows "invoked (new_events (sendLater ch d (removeAllSubscriptions w))
                    (run_ticks beh (sendLater ch d (removeAllSubscriptions w)))) = []"
proof (rule no_calls_no_invoked)
  let ?r = "removeAllSubscriptions w"
  fix t assume t: "t \<in> set (ticks (sendLater ch d ?r))"
  have c: "captured (sendLater ch d ?r) = captured ?r" by (simp add: sendLater_eq)
  have "t \<in> set (ticks ?r) \<or>
        t \<in> set (concat (map (\<lambda>(k, l). units_for ?r ch d k l)
                            (enumerate 0 (expandChannelsToListeners (sep ?r) ch))))"
    using t by (simp add: sendLater_ticks)
  then have "captured ?r t = []"
  proof
    assume "t \<in> set (ticks ?r)"
    then show ?thesis using removeAll_clears_queue [OF reachable_queue_ok [OF assms]] by blast
  next
    assume "t \<in> set (concat (map (\<lambda>(k, l). units_for ?r ch d k l)
                            (enumerate 0 (expandChannelsToListeners (sep ?r) ch))))"
    then obtain k l where "t \<in> set (units_for ?r ch d k l)" by auto
    then have "captured ?r t = subscribers ?r l" by (rule units_for_mem)
    then show ?thesis by (simp add: subscribers_removeAll)
  qed
  then show "captured (sendLater ch d ?r) t = []" by (simp add: c)
qed

text \<open>
  Claim C5, as the code has it. \<open>removeAllSubscriptions\<close> clears every set of the registry
  and leaves the queue as it is, and a closure queued by \<open>sendLater\<close> holds a reference to
  such a set, not a copy. So the closures queued before the removal still run when the queue
  is run, each enumerating the set it captured, and find it empty: running the queue after
  \<open>removeAllSubscriptions\<close> calls no callback, and it runs to the end of the queue when
  every closure captured a set. A \<open>sendLater\<close> after the removal reaches no callback
  either; on a channel whose listeners have ordinary names it queues nothing.
\<close>

theorem removed_units_deliver_nothing:
  assumes "reachable beh w"
  shows "invoked (new_events (removeAllSubscriptions (sendLater channel data w))
                    (run_ticks beh (removeAllSubscriptions (sendLater channel data w)))) = []
       \<and> ticks (removeAllSubscriptions (sendLater channel data w))
           = ticks (sendLater channel data w)
       \<and> (t \<in> set (ticks (removeAllSubscriptions (sendLater channel data w))) \<longrightarrow>
            captured (removeAllSubscriptions (sendLater channel data w)) t = [])
       \<and> (list_all (\<lambda>t. t_cbs t \<noteq> Foreign \<and> t_cbs t \<noteq> Undefined)
             (ticks (removeAllSubscriptions (sendLater channel data w))) \<longrightarrow>
            run_ticks beh (removeAllSubscriptions (sendLater channel data w))
              = (removeAllSubscriptions (sendLater channel data w))\<lparr>ticks := []\<rparr>)
       \<and> invoked (new_events (sendLater channel' data' (removeAllSubscriptions w))
                    (run_ticks beh (sendLater channel' data' (removeAllSubscriptions w)))) = []
       \<and> (list_all (\<lambda>l. \<not> inherited l) (expandChannelsToListeners (sep w) channel') \<longrightarrow>
            ticks (sendLater channel' data' (removeAllSubscriptions w)) = ticks w)"
proof -
  let ?x = "removeAllSubscriptions (sendLater channel data w)"
  have rl: "reachable beh (sendLater channel data w)" using assms by (rule reachable.r_sendLater)
  have p1: "invoked (new_events ?x (run_ticks beh ?x)) = []"
    using rl by (rule removeAll_then_run)
  have p2: "ticks ?x = ticks (sendLater channel data w)"
    by (simp add: removeAllSubscriptions_def)
  have p3: "t \<in> set (ticks ?x) \<longrightarrow> captured ?x t = []"
    using removeAll_clears_queue [OF reachable_queue_ok [OF rl]] by blast
  have p4: "list_all (\<lambda>t. t_cbs t \<noteq> Foreign \<and> t_cbs t \<noteq> Undefined) (ticks ?x) \<longrightarrow>
            run_ticks beh ?x = ?x\<lparr>ticks := []\<rparr>"
    using removeAll_then_run_all [OF rl] by blast
  have p5: "invoked (new_events (sendLater channel' data' (removeAllSubscriptions w))
                    (run_ticks beh (sendLater channel' data' (removeAllSubscriptions w)))) = []"
    using assms by (rule sendLater_after_removeAll)
  have p6: "list_all (\<lambda>l. \<not> inherited l) (expandChannelsToListeners (sep w) channel') \<longrightarrow>
            ticks (sendLater channel' data' (removeAllSubscriptions w)) = ticks w"
  proof (rule impI)
    assume "list_all (\<lambda>l. \<not> inherited l) (expandChannelsToListeners (sep w) channel')"
    then have "\<And>l. l \<in> set (expandChannelsToListeners (sep w) channel') \<Longrightarrow> \<not> inherited l"
      by (simp add: list_all_iff)
    then have "concat (map (\<lambda>(k, l). units_for (removeAllSubscriptions w) channel' data' k l)
                 (enumerate 0 (expandChannelsToListeners (sep w) channel'))) = []"
      by (rule units_for_ordinary_none)
    then show "ticks (sendLater channel' data' (removeAllSubscriptions w)) = ticks w"
      by (simp add: sendLater_ticks removeAllSubscriptions_def)
  qed
  show ?thesis
    apply (intro conjI)
         apply (rule p1)
        apply (rule p2)
       apply (rule p3)
      apply (rule p4)
     apply (rule p5)
    apply (rule p6)
    done
qed

theorem removed_units_deliver_nothing_witness:
  "reachable quiet open_bus
   \<and> subscribers open_bus ''open'' = [5]
   \<and> ticks (removeAllSubscriptions (sendLater ''open'' () open_bus))
       = [\<lparr>t_cbs = SetRef 0, t_channel = ''open'', t_data = (), t_level = 0\<rparr>]
   \<and> \<lparr>t_cbs = SetRef 0, t_channel = ''open'', t_data = (), t_level = 0\<rparr>
        \<in> set (ticks (removeAllSubscriptions (sendLater ''open'' () open_bus)))
   \<and> captured (removeAllSubscriptions (sendLater ''open'' () open_bus))
        \<lparr>t_cbs = SetRef 0, t_channel = ''open'', t_data = (), t_level = 0\<rparr> = []
   \<and> list_all (\<lambda>t. t_cbs t \<noteq> Foreign \<and> t_cbs t \<noteq> Undefined)
        (ticks (removeAllSubscriptions (sendLater ''open'' () open_bus)))
   \<and> run_ticks quiet (removeAllSubscriptions (sendLater ''open'' () open_bus))
       = (removeAllSubscriptions (sendLater ''open'' () open_bus))\<lparr>ticks := []\<rparr>
   \<and> invoked (new_events (removeAllSubscriptions (sendLater ''open'' () open_bus))
                (run_ticks quiet (removeAllSubscriptions (sendLater ''open'' () open_bus)))) = []
   \<and> list_all (\<lambda>l. \<not> inherited l) (expandChannelsToListeners (sep open_bus) ''open'')
   \<and> ticks (sendLater ''open'' () (removeAllSubscriptions open_bus)) = ticks open_bus
   \<and> ticks (sendLater ''constructor'' () (removeAllSubscriptions open_bus))
       = [\<lparr>t_cbs = Foreign, t_channel = ''constructor'', t_data = (), t_level = 0\<rparr>]
   \<and> invoked (new_events (sendLater ''constructor'' () (removeAllSubscriptions open_bus))
                (run_ticks quiet (sendLater ''constructor'' () (removeAllSubscriptions open_bus))))
       = []"
proof -
  have r: "reachable quiet open_bus" by (rule reachable_open_bus)
  have a: "subscribers open_bus ''open'' = [5]"
    "ticks (removeAllSubscriptions (sendLater ''open'' () open_bus))
       = [\<lparr>t_cbs = SetRef 0, t_channel = ''open'', t_data = (), t_level = 0\<rparr>]"
    "\<lparr>t_cbs = SetRef 0, t_channel = ''open'', t_data = (), t_level = 0\<rparr>
        \<in> set (ticks (removeAllSubscriptions (sendLater ''open'' () open_bus)))"
    "list_all (\<lambda>t. t_cbs t \<noteq> Foreign \<and> t_cbs t \<noteq> Undefined)
        (ticks (removeAllSubscriptions (sendLater ''open'' () open_bus)))"
    "list_all (\<lambda>l. \<not> inherited l) (expandChannelsToListeners (sep open_bus) ''open'')"
    "ticks (sendLater ''constructor'' () (removeAllSubscriptions open_bus))
       = [\<lparr>t_cbs = Foreign, t_channel = ''constructor'', t_data = (), t_level = 0\<rparr>]"
    by code_simp+
  note t = removed_units_deliver_nothing [OF r, of "''open''" "()"
      "\<lparr>t_cbs = SetRef 0, t_channel = ''open'', t_data = (), t_level = 0\<rparr>" "''open''" "()"]
  note t' = removed_units_deliver_nothing [OF r, of "''open''" "()"
      "\<lparr>t_cbs = SetRef 0, t_channel = ''open'', t_data = (), t_level = 0\<rparr>"
      "''constructor''" "()"]
  have b: "captured (removeAllSubscriptions (sendLater ''open'' () open_bus))
        \<lparr>t_cbs = SetRef 0, t_channel = ''open'', t_data = (), t_level = 0\<rparr> = []"
    using conjunct1 [OF conjunct2 [OF conjunct2 [OF t]]] a(3) by blast
  have c: "run_ticks quiet (removeAllSubscriptions (sendLater ''open'' () open_bus))
       = (removeAllSubscriptions (sendLater ''open'' () open_bus))\<lparr>ticks := []\<rparr>"
    using conjunct1 [OF conjunct2 [OF conjunct2 [OF conjunct2 [OF t]]]] a(4) by blast
  have d: "invoked (new_events (removeAllSubscriptions (sendLater ''open'' () open_bus))
                (run_ticks quiet (removeAllSubscriptions (sendLater ''open'' () open_bus)))) = []"
    by (rule conjunct1 [OF t])
  have e: "ticks (sendLater ''open'' () (removeAllSubscriptions open_bus)) = ticks open_bus"
    using conjunct2 [OF conjunct2 [OF conjunct2 [OF conjunct2 [OF conjunct2 [OF t]]]]] a(5)
    by blast
  have f: "invoked (new_events (sendLater ''constructor'' () (removeAllSubscriptions open_bus))
                (run_ticks quiet (sendLater ''constructor'' () (removeAllSubscriptions open_bus))))
       = []"
    by (rule conjunct1 [OF conjunct2 [OF conjunct2 [OF conjunct2 [OF conjunct2 [OF t']]]]])
  show ?thesis
    apply (intro conjI)
               apply (rule r)
              apply (rule a(1))
             apply (rule a(2))
            apply (rule a(3))
           apply (rule b)
          apply (rule a(4))
         apply (rule c)
        apply (rule d)
       apply (rule a(5))
      apply (rule e)
     apply (rule a(6))
    apply (rule f)
    done
qed

theorem removed_units_counterexample:
  "subscribers open_bus ''open'' = [5]
   \<and> later_bus = sendLater ''open'' () open_bus
   \<and> ticks later_bus = [\<lparr>t_cbs = SetRef 0, t_channel = ''open'', t_data = (), t_level = 0\<rparr>]
   \<and> invoked (trace (run_ticks quiet later_bus)) = [5]
   \<and> ticks (removeAllSubscriptions later_bus) = ticks later_bus
   \<and> invoked (trace (run_ticks quiet (removeAllSubscriptions later_bus))) = []"
proof -
  have "subscribers open_bus ''open'' = [5]"
    "ticks later_bus = [\<lparr>t_cbs = SetRef 0, t_channel = ''open'', t_data = (), t_level = 0\<rparr>]"
    "invoked (trace (run_ticks quiet later_bus)) = [5]"
    "ticks (removeAllSubscriptions later_bus) = ticks later_bus"
    "invoked (trace (run_ticks quiet (removeAllSubscriptions later_bus))) = []"
    by code_simp+
  then show ?thesis by (simp add: later_bus_def)
qed

end
